theory Spec2Isabelle
  imports Complex_Main "HOL-Library.Multiset"
begin

section \<open>Modelling conventions\<close>

text \<open>
  The development embeds \<^verbatim>\<open>tree_layout_algorithm.py\<close> and the growth part of
  \<^verbatim>\<open>tree_reaction_simulation.py\<close>.

  \<^item> Python floats are modelled by \<^typ>\<open>real\<close>, Python's unbounded ints by \<^typ>\<open>int\<close>.
  \<^item> The global generator of the \<^verbatim>\<open>random\<close> module is an oracle: two sequences of
    draws and a counter of the draws made so far, which every call increments.
    \<^verbatim>\<open>random.uniform(a, b)\<close> is \<^verbatim>\<open>a + (b - a) * random()\<close>, as in the standard
    library.
  \<^item> Exceptions are values of a sum type. The interpreter's recursion limit is not
    modelled.
  \<^item> Drawing to a pygame surface has no effect on the branch data and is left out.
  \<^item> Names are those of the source. The field \<^verbatim>\<open>length\<close> of a branch is \<open>length_b\<close>
    (\<open>length\<close> is the length of a list), and in the layout functions the parameters
    \<^verbatim>\<open>angle\<close>, \<^verbatim>\<open>length\<close>, \<^verbatim>\<open>depth\<close> and the local \<^verbatim>\<open>children\<close> are written
    \<open>ang\<close>, \<open>len\<close>, \<open>dep\<close> and \<open>kids\<close>, the plain names being the fields of a
    branch; likewise \<open>base_len\<close> and \<open>base_space\<close> in \<^verbatim>\<open>layout_tree\<close>.
\<close>

datatype py_error = IndexError | KeyError

record random_source =
  choice_draws :: "nat \<Rightarrow> nat"
  unit_draws :: "nat \<Rightarrow> real"

definition uniform :: "random_source \<Rightarrow> real \<Rightarrow> real \<Rightarrow> nat \<Rightarrow> real \<times> nat" where
  "uniform rs a b n = (a + (b - a) * unit_draws rs n, Suc n)"

definition choice :: "random_source \<Rightarrow> 'a list \<Rightarrow> nat \<Rightarrow> 'a \<times> nat" where
  "choice rs xs n = (xs ! (choice_draws rs n mod length xs), Suc n)"

section \<open>Scale selection (\<^verbatim>\<open>TreeLayoutAlgorithm.__init__\<close>, \<^verbatim>\<open>calculate_dynamic_parameters\<close>)\<close>

datatype count_bound = Finite int | Infinity

fun le_bound :: "int \<Rightarrow> count_bound \<Rightarrow> bool" where
  "le_bound n (Finite m) = (n \<le> m)"
| "le_bound n Infinity = True"

record scaling_config =
  base_length :: int
  base_spacing :: int

record tree_layout_algorithm =
  branch_angle :: real
  branch_factor :: real
  min_branch_length :: real
  max_depth :: int
  scaling_configs :: "((int \<times> count_bound) \<times> scaling_config) list"

definition TreeLayoutAlgorithm :: "real \<Rightarrow> real \<Rightarrow> real \<Rightarrow> int \<Rightarrow> tree_layout_algorithm" where
  "TreeLayoutAlgorithm ba bf mbl md =
     \<lparr> branch_angle = ba, branch_factor = bf, min_branch_length = mbl, max_depth = md,
       scaling_configs =
         [((0, Finite 10), \<lparr> base_length = 100, base_spacing = 60 \<rparr>),
          ((11, Finite 30), \<lparr> base_length = 120, base_spacing = 80 \<rparr>),
          ((31, Finite 60), \<lparr> base_length = 150, base_spacing = 100 \<rparr>),
          ((61, Infinity), \<lparr> base_length = 180, base_spacing = 120 \<rparr>)] \<rparr>"

text \<open>The \<^verbatim>\<open>for\<close> loop over the items of \<^verbatim>\<open>scaling_configs\<close>, in insertion order;
  \<open>None\<close> when the loop ends without returning.\<close>

fun scan_configs :: "((int \<times> count_bound) \<times> scaling_config) list \<Rightarrow> int \<Rightarrow> (int \<times> int) option" where
  "scan_configs [] node_count = None"
| "scan_configs (((min_count, max_count), config) # rest) node_count =
     (if min_count \<le> node_count \<and> le_bound node_count max_count
      then Some (base_length config, base_spacing config)
      else scan_configs rest node_count)"

definition calculate_dynamic_parameters :: "tree_layout_algorithm \<Rightarrow> int \<Rightarrow> py_error + (int \<times> int)" where
  "calculate_dynamic_parameters self node_count =
     (case scan_configs (scaling_configs self) node_count of
        Some r \<Rightarrow> Inr r
      | None \<Rightarrow>
          (case map_of (scaling_configs self) (61, Infinity) of
             None \<Rightarrow> Inl KeyError
           | Some config \<Rightarrow> Inr (base_length config, base_spacing config)))"

text \<open>The bands as the specification words them.\<close>

definition select_spec :: "int \<Rightarrow> int \<times> int" where
  "select_spec node_count =
     (if 0 \<le> node_count \<and> node_count \<le> 10 then (100, 60)
      else if 11 \<le> node_count \<and> node_count \<le> 30 then (120, 80)
      else if 31 \<le> node_count \<and> node_count \<le> 60 then (150, 100)
      else (180, 120))"

section \<open>Growth simulation (\<^verbatim>\<open>Branch\<close>, \<^verbatim>\<open>grow_branch_instantly\<close>)\<close>

definition GROWTH_SPEED :: real where "GROWTH_SPEED = 1"
definition BRANCH_ANGLE :: real where "BRANCH_ANGLE = 35 * pi / 180"
definition BRANCH_FACTOR :: real where "BRANCH_FACTOR = 85 / 100"
definition MIN_BRANCH_LENGTH :: real where "MIN_BRANCH_LENGTH = 18"
definition MAX_DEPTH :: int where "MAX_DEPTH = 14"

datatype branch =
  Branch (start: "real \<times> real") (angle: real) (length_b: real) (target_length: real)
    (depth: int) (finished: bool) (children: "branch list") (static: bool)

text \<open>\<^verbatim>\<open>Branch.__init__(start, angle, length, depth)\<close>\<close>

definition Branch_init :: "real \<times> real \<Rightarrow> real \<Rightarrow> real \<Rightarrow> int \<Rightarrow> branch" where
  "Branch_init st a len d = Branch st a 0 len d False [] False"

definition get_end :: "branch \<Rightarrow> real \<times> real" where
  "get_end self =
     (let dx = length_b self * cos (angle self);
          dy = length_b self * sin (angle self)
      in (fst (start self) + dx, snd (start self) + dy))"

text \<open>The body of \<^verbatim>\<open>for _ in range(num_branches)\<close> in \<^verbatim>\<open>Branch.grow\<close>; the first
  numeric argument counts the iterations left.\<close>

fun spawn :: "random_source \<Rightarrow> real \<times> real \<Rightarrow> real \<Rightarrow> real \<Rightarrow> int \<Rightarrow> nat
    \<Rightarrow> branch list \<Rightarrow> nat \<Rightarrow> branch list \<times> nat" where
  "spawn rs endp a tlen d 0 cs n = (cs, n)"
| "spawn rs endp a tlen d (Suc k) cs n =
     (let (delta, n1) = (if d = 1 then (0, n) else uniform rs (- BRANCH_ANGLE) BRANCH_ANGLE n);
          (r, n2) = uniform rs (8 / 10) BRANCH_FACTOR n1;
          new_length = tlen * r
      in if new_length \<ge> MIN_BRANCH_LENGTH
         then spawn rs endp a tlen d k (cs @ [Branch_init endp (a + delta) new_length (d + 1)]) n2
         else spawn rs endp a tlen d k cs n2)"

fun grow :: "random_source \<Rightarrow> branch \<Rightarrow> nat \<Rightarrow> branch \<times> nat" where
  "grow rs (Branch st a len tlen d fin cs stc) n =
     (if len < tlen then
        (let len1 = len + GROWTH_SPEED;
             len2 = (if len1 > tlen then tlen else len1)
         in (Branch st a len2 tlen d fin cs stc, n))
      else
        (let (fin1, cs1, n1) =
               (if \<not> fin \<and> d < MAX_DEPTH \<and> tlen > MIN_BRANCH_LENGTH then
                  (let endp = get_end (Branch st a len tlen d True cs stc);
                       (num_branches, m) = choice rs [2::nat, 3] n;
                       (cs', m') = spawn rs endp a tlen d num_branches cs m
                   in (True, cs', m'))
                else (fin, cs, n))
         in if fin1 \<and> list_all static cs1
            then (Branch st a len tlen d fin1 cs1 True, n1)
            else (Branch st a len tlen d fin1 cs1 stc, n1)))"

text \<open>
  \<^verbatim>\<open>Branch.update\<close> calls itself on the children of the branch after \<^verbatim>\<open>grow\<close>
  may have appended new ones. The recursion ends because a new child has no children and
  cannot spawn in its first tick: \<open>pot\<close> bounds the depth of the recursion.
\<close>

fun pot :: "branch \<Rightarrow> nat" and pot_list :: "branch list \<Rightarrow> nat" where
  "pot (Branch st a len tlen d fin cs stc) =
     Suc ((if \<not> len < tlen \<and> \<not> fin \<and> d < MAX_DEPTH \<and> tlen > MIN_BRANCH_LENGTH then 1 else 0) + pot_list cs)"
| "pot_list [] = 0"
| "pot_list (c # cs) = max (pot c) (pot_list cs)"

lemma pot_list_append: "pot_list (xs @ ys) = max (pot_list xs) (pot_list ys)"
  by (induction xs) auto

lemma pot_fresh: "MIN_BRANCH_LENGTH \<le> l \<Longrightarrow> pot (Branch_init endp x l d) = 1"
  by (simp add: Branch_init_def MIN_BRANCH_LENGTH_def)

lemma pot_list_spawn: "pot_list (fst (spawn rs endp a tlen d k cs n)) \<le> max (pot_list cs) 1"
proof (induction k arbitrary: cs n)
  case 0
  then show ?case by simp
next
  case (Suc k)
  show ?case
  proof (cases "MIN_BRANCH_LENGTH \<le> tlen * fst (uniform rs (8 / 10) BRANCH_FACTOR (snd (if d = 1 then (0, n) else uniform rs (- BRANCH_ANGLE) BRANCH_ANGLE n)))")
    case True
    then show ?thesis
      using Suc.IH [of "cs @ [Branch_init endp (a + fst (if d = 1 then (0, n) else uniform rs (- BRANCH_ANGLE) BRANCH_ANGLE n)) (tlen * fst (uniform rs (8 / 10) BRANCH_FACTOR (snd (if d = 1 then (0, n) else uniform rs (- BRANCH_ANGLE) BRANCH_ANGLE n)))) (d + 1)]"]
      by (simp add: Let_def case_prod_beta pot_list_append pot_fresh)
  next
    case False
    then show ?thesis
      using Suc.IH [of cs]
      by (simp add: Let_def case_prod_beta)
  qed
qed

lemma pot_list_children_grow: "pot_list (children (fst (grow rs b n))) < pot b"
proof (cases b)
  case (Branch st a len tlen d fin cs stc)
  show ?thesis
    using pot_list_spawn [of rs "get_end (Branch st a len tlen d True cs stc)" a tlen d "fst (choice rs [2::nat, 3] n)" cs "snd (choice rs [2::nat, 3] n)"]
    unfolding Branch
    by (auto simp: Let_def case_prod_beta)
qed

lemma pot_list_children: "pot_list (children b) < pot b"
  by (cases b) simp

function update :: "random_source \<Rightarrow> bool \<Rightarrow> branch \<Rightarrow> nat \<Rightarrow> branch \<times> nat"
  and update_children :: "random_source \<Rightarrow> bool \<Rightarrow> branch list \<Rightarrow> nat \<Rightarrow> branch list \<times> nat" where
  "update rs grow_this_frame self n =
     (if \<not> static self then
        (let (self1, n1) = (if grow_this_frame then grow rs self n else (self, n));
             (cs, n2) = update_children rs grow_this_frame (children self1) n1
         in (Branch (start self1) (angle self1) (length_b self1) (target_length self1)
               (depth self1) (finished self1) cs (static self1), n2))
      else (self, n))"
| "update_children rs grow_this_frame [] n = ([], n)"
| "update_children rs grow_this_frame (child # rest) n =
     (let (child', n1) = update rs grow_this_frame child n;
          (rest', n2) = update_children rs grow_this_frame rest n1
      in (child' # rest', n2))"
  by pat_completeness auto
termination
proof (relation "measures [\<lambda>x. case x of Inl (rs, g, b, n) \<Rightarrow> 2 * pot b | Inr (rs, g, cs, n) \<Rightarrow> 2 * pot_list cs + 1,
                           \<lambda>x. case x of Inl (rs, g, b, n) \<Rightarrow> 0 | Inr (rs, g, cs, n) \<Rightarrow> length cs]", goal_cases)
  case 1
  then show ?case by simp
next
  case (2 rs g self n x xa y)
  then have "xa = (if g then fst (grow rs self n) else self)"
    by (auto split: if_splits dest: arg_cong [where f = fst])
  then show ?case
    using pot_list_children_grow [of rs self n] pot_list_children [of self]
    by (auto split: if_splits)
next
  case (3 rs g child rest n)
  show ?case by (simp add: max_def)
next
  case (4 rs g child rest n x xa y)
  show ?case by (simp add: max_def)
qed

text \<open>\<^verbatim>\<open>grow_branch_instantly\<close>; \<open>instant_spawn\<close> is its \<^verbatim>\<open>for\<close> loop, which
  calls the function again on each child it creates.\<close>

function grow_branch_instantly :: "random_source \<Rightarrow> branch \<Rightarrow> nat \<Rightarrow> branch \<times> nat"
  and instant_spawn :: "random_source \<Rightarrow> real \<times> real \<Rightarrow> real \<Rightarrow> real \<Rightarrow> int \<Rightarrow> nat
    \<Rightarrow> branch list \<Rightarrow> nat \<Rightarrow> branch list \<times> nat" where
  "grow_branch_instantly rs (Branch st a len tlen d fin cs stc) n =
     (if \<not> fin \<and> d < MAX_DEPTH \<and> tlen > MIN_BRANCH_LENGTH then
        (let endp = get_end (Branch st a tlen tlen d True cs stc);
             (num_branches, m) = choice rs [2::nat, 3] n;
             (cs', m') = instant_spawn rs endp a tlen d num_branches cs m
         in (Branch st a tlen tlen d True cs' stc, m'))
      else (Branch st a tlen tlen d fin cs stc, n))"
| "instant_spawn rs endp a tlen d 0 cs n = (cs, n)"
| "instant_spawn rs endp a tlen d (Suc k) cs n =
     (let (delta, n1) = (if d = 1 then (0, n) else uniform rs (- BRANCH_ANGLE) BRANCH_ANGLE n);
          (r, n2) = uniform rs (8 / 10) BRANCH_FACTOR n1;
          new_length = tlen * r
      in if new_length \<ge> MIN_BRANCH_LENGTH
         then (let (child, n3) = grow_branch_instantly rs (Branch_init endp (a + delta) new_length (d + 1)) n2
               in instant_spawn rs endp a tlen d k (cs @ [child]) n3)
         else instant_spawn rs endp a tlen d k cs n2)"
  by pat_completeness auto
termination
  by (relation "measures
       [\<lambda>x. case x of Inl (rs, b, n) \<Rightarrow> nat (MAX_DEPTH + 1 - depth b)
                     | Inr (rs, endp, a, tlen, d, k, cs, n) \<Rightarrow> nat (MAX_DEPTH - d) + 1,
        \<lambda>x. case x of Inl (rs, b, n) \<Rightarrow> 1 | Inr (rs, endp, a, tlen, d, k, cs, n) \<Rightarrow> 0,
        \<lambda>x. case x of Inl (rs, b, n) \<Rightarrow> 0 | Inr (rs, endp, a, tlen, d, k, cs, n) \<Rightarrow> k]")
     (auto simp: Branch_init_def)

text \<open>A sequence of \<^verbatim>\<open>update\<close> calls on one branch, one tick flag per call.\<close>

fun updates :: "random_source \<Rightarrow> bool list \<Rightarrow> branch \<Rightarrow> nat \<Rightarrow> branch \<times> nat" where
  "updates rs [] self n = (self, n)"
| "updates rs (g # gs) self n = (let (self1, n1) = update rs g self n in updates rs gs self1 n1)"

text \<open>
  The calls a caller can make on a branch it owns, and a run of such calls from left to
  right: the states a branch can be in are the results of runs that start at
  \<^verbatim>\<open>Branch.__init__\<close>.
\<close>

datatype call = Update bool | InstantGrow

fun apply_call :: "random_source \<Rightarrow> call \<Rightarrow> branch \<Rightarrow> nat \<Rightarrow> branch \<times> nat" where
  "apply_call rs (Update grow_this_frame) self n = update rs grow_this_frame self n"
| "apply_call rs InstantGrow self n = grow_branch_instantly rs self n"

fun run :: "random_source \<Rightarrow> call list \<Rightarrow> branch \<Rightarrow> nat \<Rightarrow> branch \<times> nat" where
  "run rs [] self n = (self, n)"
| "run rs (c # cs) self n = (let (self1, n1) = apply_call rs c self n in run rs cs self1 n1)"

text \<open>
  All branches of a tree of branches, and the branch at the end of a path of child
  indices.
\<close>

fun subtree :: "branch \<Rightarrow> branch set" where
  "subtree (Branch st a len tlen d fin cs stc) =
     insert (Branch st a len tlen d fin cs stc) (\<Union>c \<in> set cs. subtree c)"

fun descend :: "nat list \<Rightarrow> branch \<Rightarrow> branch option" where
  "descend [] b = Some b"
| "descend (i # p) b = (if i < length (children b) then descend p (children b ! i) else None)"

section \<open>Tree layout (\<^verbatim>\<open>build_tree_structure\<close>, \<^verbatim>\<open>find_root_nodes\<close>,
  \<^verbatim>\<open>place_nodes_recursively\<close>, \<^verbatim>\<open>layout_tree\<close>)\<close>

text \<open>
  \<^item> \<^verbatim>\<open>nodes\<close> is a dict: an association list in insertion order, whose keys are the
    node ids (a dict has each key once).
  \<^item> A link is a dict read with \<^verbatim>\<open>link.get('from')\<close>, \<^verbatim>\<open>link.get('to')\<close> and
    \<^verbatim>\<open>'to' in link\<close>: a record of two optional ids, \<open>None\<close> for a missing key.
  \<^item> \<^verbatim>\<open>tree_structure\<close> and \<^verbatim>\<open>node_positions\<close> are dicts read by key only: maps.
  \<^item> \<^verbatim>\<open>list(all_node_ids - linked_to)\<close> lists a Python set. The language fixes no
    iteration order for sets, so the order is a parameter \<open>set_order\<close> of the model.
\<close>

record 'a link =
  link_from :: "'a option"
  link_to :: "'a option"

definition dict_keys :: "('a \<times> 'd) list \<Rightarrow> 'a list" where
  "dict_keys nodes = map fst nodes"

text \<open>The body of \<^verbatim>\<open>for link in links\<close> in \<^verbatim>\<open>build_tree_structure\<close>.\<close>

definition add_link :: "'a link \<Rightarrow> ('a \<rightharpoonup> 'a list) \<Rightarrow> ('a \<rightharpoonup> 'a list)" where
  "add_link link tree_structure =
     (case (link_from link, link_to link) of
        (Some parent, Some child) \<Rightarrow>
          (case (tree_structure parent, tree_structure child) of
             (Some cs, Some _) \<Rightarrow> tree_structure(parent \<mapsto> cs @ [child])
           | _ \<Rightarrow> tree_structure)
      | _ \<Rightarrow> tree_structure)"

definition build_tree_structure :: "'a \<Rightarrow> ('a \<times> 'd) list \<Rightarrow> 'a link list \<Rightarrow> ('a \<rightharpoonup> 'a list)" where
  "build_tree_structure root_node nodes links =
     (let tree_structure = fold (\<lambda>node_id ts. ts(node_id \<mapsto> [])) (dict_keys nodes) Map.empty
      in fold add_link links tree_structure)"

text \<open>The set \<^verbatim>\<open>linked_to\<close> of \<^verbatim>\<open>find_root_nodes\<close>.\<close>

definition linked_to :: "'a link list \<Rightarrow> 'a set" where
  "linked_to links = fold (\<lambda>link s. case link_to link of Some t \<Rightarrow> insert t s | None \<Rightarrow> s) links {}"

definition find_root_nodes :: "('a set \<Rightarrow> 'a list) \<Rightarrow> ('a \<times> 'd) list \<Rightarrow> 'a link list \<Rightarrow> py_error + 'a list" where
  "find_root_nodes set_order nodes links =
     (let all_node_ids = set (dict_keys nodes);
          root_nodes = set_order (all_node_ids - linked_to links)
      in if root_nodes = []
         then (case dict_keys nodes of [] \<Rightarrow> Inl IndexError | k # _ \<Rightarrow> Inr [k])
         else Inr root_nodes)"

record 'a place_state =
  positioned_nodes :: "'a set"
  node_positions :: "'a \<rightharpoonup> real \<times> real"
  draws :: nat

text \<open>\<^verbatim>\<open>place_nodes_recursively\<close>; \<open>place_children\<close> is its loop
  \<^verbatim>\<open>for i, child_id in enumerate(children)\<close>, run on the pairs still to visit.\<close>

function place_nodes_recursively ::
    "tree_layout_algorithm \<Rightarrow> random_source \<Rightarrow> 'a \<Rightarrow> ('a \<rightharpoonup> 'a list)
      \<Rightarrow> real \<Rightarrow> real \<Rightarrow> real \<Rightarrow> real \<Rightarrow> int \<Rightarrow> 'a place_state \<Rightarrow> 'a place_state"
  and place_children ::
    "tree_layout_algorithm \<Rightarrow> random_source \<Rightarrow> ('a \<rightharpoonup> 'a list)
      \<Rightarrow> real \<Rightarrow> real \<Rightarrow> real \<Rightarrow> real \<Rightarrow> int \<Rightarrow> nat \<Rightarrow> (nat \<times> 'a) list
      \<Rightarrow> 'a place_state \<Rightarrow> 'a place_state" where
  "place_nodes_recursively self rs node_id tree_structure start_x start_y ang len dep s =
     (if dep \<ge> max_depth self \<or> len < min_branch_length self then s
      else
        (let kids = (case tree_structure node_id of None \<Rightarrow> [] | Some cs \<Rightarrow> cs)
         in if kids = [] then s
            else (let num_branches = length kids
                  in place_children self rs tree_structure start_x start_y ang len dep
                       num_branches (enumerate 0 kids) s)))"
| "place_children self rs tree_structure start_x start_y ang len dep num_branches [] s = s"
| "place_children self rs tree_structure start_x start_y ang len dep num_branches ((i, child_id) # rest) s =
     (if child_id \<in> positioned_nodes s
      then place_children self rs tree_structure start_x start_y ang len dep num_branches rest s
      else
        (let delta =
               (if num_branches = 1 then 0
                else (let spread = branch_angle self * 2
                      in (real i / real_of_int (int num_branches - 1)) * spread - spread / 2));
             child_angle = ang + delta;
             end_x = start_x + len * cos child_angle;
             end_y = start_y + len * sin child_angle;
             s1 = s\<lparr> node_positions := (node_positions s)(child_id \<mapsto> (end_x, end_y)),
                     positioned_nodes := insert child_id (positioned_nodes s) \<rparr>;
             u = uniform rs (8 / 10) (branch_factor self) (draws s1);
             new_length = len * fst u;
             s2 = place_nodes_recursively self rs child_id tree_structure end_x end_y
                    child_angle new_length (dep + 1) (s1\<lparr> draws := snd u \<rparr>)
         in place_children self rs tree_structure start_x start_y ang len dep num_branches rest s2))"
  by pat_completeness auto
termination
  by (relation "measures
       [\<lambda>x. case x of
               Inl (self, rs, node_id, ts, sx, sy, ang, len, dep, s) \<Rightarrow> nat (max_depth self + 1 - dep)
             | Inr (self, rs, ts, sx, sy, ang, len, dep, k, rest, s) \<Rightarrow> nat (max_depth self - dep) + 1,
        \<lambda>x. case x of
               Inl (self, rs, node_id, ts, sx, sy, ang, len, dep, s) \<Rightarrow> 1
             | Inr (self, rs, ts, sx, sy, ang, len, dep, k, rest, s) \<Rightarrow> 0,
        \<lambda>x. case x of
               Inl (self, rs, node_id, ts, sx, sy, ang, len, dep, s) \<Rightarrow> 0
             | Inr (self, rs, ts, sx, sy, ang, len, dep, k, rest, s) \<Rightarrow> length rest]")
     auto

definition layout_tree ::
    "tree_layout_algorithm \<Rightarrow> ('a set \<Rightarrow> 'a list) \<Rightarrow> random_source \<Rightarrow> ('a \<times> 'd) list
      \<Rightarrow> 'a link list \<Rightarrow> real \<Rightarrow> real \<Rightarrow> nat \<Rightarrow> py_error + ('a \<rightharpoonup> real \<times> real)" where
  "layout_tree self set_order rs nodes links root_x root_y n =
     (if nodes = [] then Inr Map.empty
      else
        (let total_nodes = int (length nodes)
         in case calculate_dynamic_parameters self total_nodes of
              Inl e \<Rightarrow> Inl e
            | Inr (base_len, base_space) \<Rightarrow>
                (case find_root_nodes set_order nodes links of
                   Inl e \<Rightarrow> Inl e
                 | Inr [] \<Rightarrow> Inl IndexError
                 | Inr (root_node # _) \<Rightarrow>
                     (let tree_structure = build_tree_structure root_node nodes links;
                          s0 = \<lparr> positioned_nodes = {root_node},
                                 node_positions = [root_node \<mapsto> (root_x, root_y)],
                                 draws = n \<rparr>;
                          s = place_nodes_recursively self rs root_node tree_structure
                                root_x root_y (- pi / 2) (real_of_int base_len) 1 s0
                      in Inr (node_positions s)))))"

text \<open>The nodes reachable from a node through the child lists of a tree structure.\<close>

definition child_edges :: "('a \<rightharpoonup> 'a list) \<Rightarrow> ('a \<times> 'a) set" where
  "child_edges tree_structure = {(p, c). \<exists>cs. tree_structure p = Some cs \<and> c \<in> set cs}"

definition reachable_from :: "('a \<rightharpoonup> 'a list) \<Rightarrow> 'a \<Rightarrow> 'a set" where
  "reachable_from tree_structure root_node = (child_edges tree_structure)\<^sup>* `` {root_node}"

section \<open>Auxiliary definitions\<close>

text \<open>
  Names for the expressions of the loop body of \<^verbatim>\<open>place_nodes_recursively\<close>: the
  children read with \<^verbatim>\<open>tree_structure.get(node_id, [])\<close>, the angular offset
  \<^verbatim>\<open>delta\<close>, the position \<^verbatim>\<open>(end_x, end_y)\<close>, the state after the child is stored
  and the length factor is drawn, and \<^verbatim>\<open>new_length\<close>. The lemmas
  \<open>place_nodes_recursively_eq\<close> and \<open>place_children_Cons\<close> below show that the
  functions compute exactly these.
\<close>

definition kids_of :: "('a \<rightharpoonup> 'a list) \<Rightarrow> 'a \<Rightarrow> 'a list" where
  "kids_of tree_structure node_id = (case tree_structure node_id of None \<Rightarrow> [] | Some cs \<Rightarrow> cs)"

definition child_delta :: "tree_layout_algorithm \<Rightarrow> nat \<Rightarrow> nat \<Rightarrow> real" where
  "child_delta self num_branches i =
     (if num_branches = 1 then 0
      else (real i / real_of_int (int num_branches - 1)) * (branch_angle self * 2)
             - (branch_angle self * 2) / 2)"

definition child_pos :: "tree_layout_algorithm \<Rightarrow> real \<Rightarrow> real \<Rightarrow> real \<Rightarrow> real \<Rightarrow> nat \<Rightarrow> nat \<Rightarrow> real \<times> real" where
  "child_pos self start_x start_y ang len num_branches i =
     (start_x + len * cos (ang + child_delta self num_branches i),
      start_y + len * sin (ang + child_delta self num_branches i))"

definition store_child ::
    "tree_layout_algorithm \<Rightarrow> random_source \<Rightarrow> real \<Rightarrow> real \<Rightarrow> real \<Rightarrow> real \<Rightarrow> nat \<Rightarrow> nat \<Rightarrow> 'a
      \<Rightarrow> 'a place_state \<Rightarrow> 'a place_state" where
  "store_child self rs start_x start_y ang len num_branches i child_id s =
     s\<lparr> node_positions :=
          (node_positions s)(child_id \<mapsto> child_pos self start_x start_y ang len num_branches i),
        positioned_nodes := insert child_id (positioned_nodes s),
        draws := Suc (draws s) \<rparr>"

definition next_length :: "tree_layout_algorithm \<Rightarrow> random_source \<Rightarrow> real \<Rightarrow> nat \<Rightarrow> real" where
  "next_length self rs len n = len * (8 / 10 + (branch_factor self - 8 / 10) * unit_draws rs n)"

text \<open>
  The offset as the specification words it, and the child sequence it describes: the
  targets of the edges that leave \<open>p\<close>, in edge order, for edges with both ends among
  the known ids \<open>K\<close>.
\<close>

definition delta_spec :: "real \<Rightarrow> nat \<Rightarrow> nat \<Rightarrow> real" where
  "delta_spec ba k i =
     (if k = 1 then 0 else (real i / real (k - 1)) * (2 * ba) - (2 * ba) / 2)"

definition edge_targets :: "'a set \<Rightarrow> 'a \<Rightarrow> 'a link list \<Rightarrow> 'a list" where
  "edge_targets K p links =
     concat (map (\<lambda>l. case (link_from l, link_to l) of
                         (Some parent, Some child) \<Rightarrow>
                           (if parent = p \<and> p \<in> K \<and> child \<in> K then [child] else [])
                       | _ \<Rightarrow> []) links)"

text \<open>
  Invariants of the growth simulation: the current length lies between 0 and the target
  in the whole tree; a static branch is finished and has static children only, in the
  whole tree; and what \<^verbatim>\<open>grow_branch_instantly\<close> leaves behind.
\<close>

fun len_ok :: "branch \<Rightarrow> bool" where
  "len_ok (Branch st a len tlen d fin cs stc) = (0 \<le> len \<and> len \<le> tlen \<and> list_all len_ok cs)"

fun static_ok :: "branch \<Rightarrow> bool" where
  "static_ok (Branch st a len tlen d fin cs stc) =
     ((stc \<longrightarrow> fin \<and> list_all static cs) \<and> list_all static_ok cs)"

fun instant_ok :: "branch \<Rightarrow> bool" where
  "instant_ok (Branch st a len tlen d fin cs stc) =
     (len = tlen \<and> (fin \<longleftrightarrow> d < MAX_DEPTH \<and> tlen > MIN_BRANCH_LENGTH) \<and> list_all instant_ok cs)"

text \<open>
  Relations between states of the placement: \<open>extends\<close> (nothing positioned is lost
  or moved), \<open>consistent\<close> (the keys of \<^verbatim>\<open>node_positions\<close> are the positioned nodes),
  \<open>wf_ts\<close> (all children are known ids) and \<open>closed_in\<close> (every node added has all
  its children positioned).
\<close>

definition extends :: "'a place_state \<Rightarrow> 'a place_state \<Rightarrow> bool" where
  "extends s s' \<longleftrightarrow>
     positioned_nodes s \<subseteq> positioned_nodes s'
     \<and> (\<forall>x \<in> positioned_nodes s. node_positions s' x = node_positions s x)"

definition consistent :: "'a place_state \<Rightarrow> bool" where
  "consistent s \<longleftrightarrow> dom (node_positions s) = positioned_nodes s"

definition wf_ts :: "'a set \<Rightarrow> ('a \<rightharpoonup> 'a list) \<Rightarrow> bool" where
  "wf_ts K ts \<longleftrightarrow> (\<forall>p. set (kids_of ts p) \<subseteq> K)"

definition closed_in :: "('a \<rightharpoonup> 'a list) \<Rightarrow> 'a set \<Rightarrow> 'a set \<Rightarrow> bool" where
  "closed_in ts V V' \<longleftrightarrow> (\<forall>x \<in> V' - V. set (kids_of ts x) \<subseteq> V')"

text \<open>
  Concrete data: a generator whose every draw is 0 (\<^verbatim>\<open>random()\<close> gives 0.0, so
  \<^verbatim>\<open>uniform(a, b)\<close> gives \<open>a\<close>, and \<^verbatim>\<open>choice\<close> takes the first element), the
  algorithm object of \<^verbatim>\<open>example_usage\<close>, an edge with both keys, a chain of ten nodes,
  a root with two children, and a fully grown branch without children.
\<close>

definition zero_draws :: random_source where
  "zero_draws = \<lparr> choice_draws = (\<lambda>_. 0), unit_draws = (\<lambda>_. 0) \<rparr>"

definition default_layout :: tree_layout_algorithm where
  "default_layout = TreeLayoutAlgorithm (35 * pi / 180) (85 / 100) 30 10000"

definition edge :: "'a \<Rightarrow> 'a \<Rightarrow> 'a link" where
  "edge p c = \<lparr> link_from = Some p, link_to = Some c \<rparr>"

definition chain_nodes :: "(int \<times> unit) list" where
  "chain_nodes = [(1, ()), (2, ()), (3, ()), (4, ()), (5, ()), (6, ()), (7, ()), (8, ()), (9, ()), (10, ())]"

definition chain_links :: "int link list" where
  "chain_links = [edge 1 2, edge 2 3, edge 3 4, edge 4 5, edge 5 6, edge 6 7, edge 7 8, edge 8 9, edge 9 10]"

definition tri_nodes :: "(int \<times> unit) list" where
  "tri_nodes = [(1, ()), (2, ()), (3, ())]"

definition tri_links :: "int link list" where
  "tri_links = [edge 1 2, edge 1 3]"

definition grown_twig :: branch where
  "grown_twig = Branch (24, 0) 0 (96 / 5) (96 / 5) 2 True [] True"

text \<open>
  The calls of \<^verbatim>\<open>place_nodes_recursively\<close> that one call sets off, itself included,
  in call order, each as (node id, length, depth). \<open>place_calls\<close> and
  \<open>place_children_calls\<close> follow the recursion of \<open>place_nodes_recursively\<close> and
  \<open>place_children\<close> branch by branch and list the calls instead of returning the state;
  \<open>layout_calls\<close> does so for the call that \<^verbatim>\<open>layout_tree\<close> makes on the root. A call
  is \<open>made_from\<close> another when that one is a call on a parent of its node that passed
  both cut-off tests, one level higher, and its length is the parent's length times one
  drawn factor.
\<close>

function place_calls ::
    "tree_layout_algorithm \<Rightarrow> random_source \<Rightarrow> 'a \<Rightarrow> ('a \<rightharpoonup> 'a list)
      \<Rightarrow> real \<Rightarrow> real \<Rightarrow> real \<Rightarrow> real \<Rightarrow> int \<Rightarrow> 'a place_state \<Rightarrow> ('a \<times> real \<times> int) list"
  and place_children_calls ::
    "tree_layout_algorithm \<Rightarrow> random_source \<Rightarrow> ('a \<rightharpoonup> 'a list)
      \<Rightarrow> real \<Rightarrow> real \<Rightarrow> real \<Rightarrow> real \<Rightarrow> int \<Rightarrow> nat \<Rightarrow> (nat \<times> 'a) list
      \<Rightarrow> 'a place_state \<Rightarrow> ('a \<times> real \<times> int) list" where
  "place_calls self rs node_id tree_structure start_x start_y ang len dep s =
     (node_id, len, dep) #
       (if dep \<ge> max_depth self \<or> len < min_branch_length self then []
        else if kids_of tree_structure node_id = [] then []
        else place_children_calls self rs tree_structure start_x start_y ang len dep
               (length (kids_of tree_structure node_id))
               (enumerate 0 (kids_of tree_structure node_id)) s)"
| "place_children_calls self rs tree_structure start_x start_y ang len dep num_branches [] s = []"
| "place_children_calls self rs tree_structure start_x start_y ang len dep num_branches ((i, child_id) # rest) s =
     (if child_id \<in> positioned_nodes s
      then place_children_calls self rs tree_structure start_x start_y ang len dep num_branches rest s
      else
        place_calls self rs child_id tree_structure
          (fst (child_pos self start_x start_y ang len num_branches i))
          (snd (child_pos self start_x start_y ang len num_branches i))
          (ang + child_delta self num_branches i) (next_length self rs len (draws s)) (dep + 1)
          (store_child self rs start_x start_y ang len num_branches i child_id s)
        @ place_children_calls self rs tree_structure start_x start_y ang len dep num_branches rest
            (place_nodes_recursively self rs child_id tree_structure
               (fst (child_pos self start_x start_y ang len num_branches i))
               (snd (child_pos self start_x start_y ang len num_branches i))
               (ang + child_delta self num_branches i) (next_length self rs len (draws s)) (dep + 1)
               (store_child self rs start_x start_y ang len num_branches i child_id s)))"
  by pat_completeness auto
termination
  by (relation "measures
       [\<lambda>x. case x of
               Inl (self, rs, node_id, ts, sx, sy, ang, len, dep, s) \<Rightarrow> nat (max_depth self + 1 - dep)
             | Inr (self, rs, ts, sx, sy, ang, len, dep, k, rest, s) \<Rightarrow> nat (max_depth self - dep) + 1,
        \<lambda>x. case x of
               Inl (self, rs, node_id, ts, sx, sy, ang, len, dep, s) \<Rightarrow> 1
             | Inr (self, rs, ts, sx, sy, ang, len, dep, k, rest, s) \<Rightarrow> 0,
        \<lambda>x. case x of
               Inl (self, rs, node_id, ts, sx, sy, ang, len, dep, s) \<Rightarrow> 0
             | Inr (self, rs, ts, sx, sy, ang, len, dep, k, rest, s) \<Rightarrow> length rest]")
     auto

definition made_from ::
    "tree_layout_algorithm \<Rightarrow> random_source \<Rightarrow> ('a \<rightharpoonup> 'a list) \<Rightarrow> ('a \<times> real \<times> int) list
      \<Rightarrow> 'a \<times> real \<times> int \<Rightarrow> bool" where
  "made_from self rs ts calls x =
     (\<exists>p lp j. (p, lp, snd (snd x) - 1) \<in> set calls
        \<and> snd (snd x) - 1 < max_depth self \<and> min_branch_length self \<le> lp
        \<and> fst x \<in> set (kids_of ts p)
        \<and> fst (snd x) = next_length self rs lp j)"

definition layout_calls ::
    "tree_layout_algorithm \<Rightarrow> ('a set \<Rightarrow> 'a list) \<Rightarrow> random_source \<Rightarrow> ('a \<times> 'd) list
      \<Rightarrow> 'a link list \<Rightarrow> real \<Rightarrow> real \<Rightarrow> nat \<Rightarrow> ('a \<times> real \<times> int) list" where
  "layout_calls self set_order rs nodes links root_x root_y n =
     (if nodes = [] then []
      else
        (let total_nodes = int (length nodes)
         in case calculate_dynamic_parameters self total_nodes of
              Inl e \<Rightarrow> []
            | Inr (base_len, base_space) \<Rightarrow>
                (case find_root_nodes set_order nodes links of
                   Inl e \<Rightarrow> []
                 | Inr [] \<Rightarrow> []
                 | Inr (root_node # _) \<Rightarrow>
                     (let tree_structure = build_tree_structure root_node nodes links;
                          s0 = \<lparr> positioned_nodes = {root_node},
                                 node_positions = [root_node \<mapsto> (root_x, root_y)],
                                 draws = n \<rparr>
                      in place_calls self rs root_node tree_structure
                           root_x root_y (- pi / 2) (real_of_int base_len) 1 s0))))"

section \<open>Growth simulation: unfolding lemmas and invariants\<close>

declare update.simps [simp del] grow_branch_instantly.simps [simp del] instant_spawn.simps [simp del]

lemma update_static: "static self \<Longrightarrow> update rs g self n = (self, n)"
  by (simp add: update.simps)

lemma update_not_static:
  assumes "\<not> static self"
  shows "update rs g self n =
    (Branch (start (fst (if g then grow rs self n else (self, n))))
            (angle (fst (if g then grow rs self n else (self, n))))
            (length_b (fst (if g then grow rs self n else (self, n))))
            (target_length (fst (if g then grow rs self n else (self, n))))
            (depth (fst (if g then grow rs self n else (self, n))))
            (finished (fst (if g then grow rs self n else (self, n))))
            (fst (update_children rs g (children (fst (if g then grow rs self n else (self, n))))
                    (snd (if g then grow rs self n else (self, n)))))
            (static (fst (if g then grow rs self n else (self, n)))),
     snd (update_children rs g (children (fst (if g then grow rs self n else (self, n))))
                    (snd (if g then grow rs self n else (self, n)))))"
  using assms by (simp add: update.simps [of rs g self n] case_prod_beta Let_def)

lemma update_children_Cons:
  "update_children rs g (child # rest) n =
     (fst (update rs g child n) # fst (update_children rs g rest (snd (update rs g child n))),
      snd (update_children rs g rest (snd (update rs g child n))))"
  by (simp add: case_prod_beta Let_def)

lemma spawn_Suc:
  "spawn rs endp a tlen d (Suc k) cs n =
     (if MIN_BRANCH_LENGTH \<le> tlen * fst (uniform rs (8 / 10) BRANCH_FACTOR
            (snd (if d = 1 then (0, n) else uniform rs (- BRANCH_ANGLE) BRANCH_ANGLE n)))
      then spawn rs endp a tlen d k
             (cs @ [Branch_init endp (a + fst (if d = 1 then (0, n) else uniform rs (- BRANCH_ANGLE) BRANCH_ANGLE n))
                      (tlen * fst (uniform rs (8 / 10) BRANCH_FACTOR
                         (snd (if d = 1 then (0, n) else uniform rs (- BRANCH_ANGLE) BRANCH_ANGLE n)))) (d + 1)])
             (snd (uniform rs (8 / 10) BRANCH_FACTOR
                (snd (if d = 1 then (0, n) else uniform rs (- BRANCH_ANGLE) BRANCH_ANGLE n))))
      else spawn rs endp a tlen d k cs
             (snd (uniform rs (8 / 10) BRANCH_FACTOR
                (snd (if d = 1 then (0, n) else uniform rs (- BRANCH_ANGLE) BRANCH_ANGLE n)))))"
  by (simp add: case_prod_beta Let_def)

lemma spawn_list_all:
  assumes fresh: "\<And>x l. MIN_BRANCH_LENGTH \<le> l \<Longrightarrow> P (Branch_init endp x l (d + 1))"
  shows "list_all P cs \<Longrightarrow> list_all P (fst (spawn rs endp a tlen d k cs n))"
proof (induction k arbitrary: cs n)
  case 0
  then show ?case by simp
next
  case (Suc k)
  show ?case
  proof (subst spawn_Suc, split if_split, intro conjI impI, goal_cases)
    case 1
    then show ?case by (intro Suc.IH) (simp add: Suc.prems fresh)
  next
    case 2
    then show ?case by (intro Suc.IH) (simp add: Suc.prems)
  qed
qed

lemma grow_cases:
  "grow rs (Branch st a len tlen d fin cs stc) n =
     (if len < tlen then
        (Branch st a (if len + GROWTH_SPEED > tlen then tlen else len + GROWTH_SPEED) tlen d fin cs stc, n)
      else if \<not> fin \<and> d < MAX_DEPTH \<and> tlen > MIN_BRANCH_LENGTH then
        (Branch st a len tlen d True
           (fst (spawn rs (get_end (Branch st a len tlen d True cs stc)) a tlen d
                   (fst (choice rs [2::nat, 3] n)) cs (snd (choice rs [2::nat, 3] n))))
           (stc \<or> list_all static
             (fst (spawn rs (get_end (Branch st a len tlen d True cs stc)) a tlen d
                   (fst (choice rs [2::nat, 3] n)) cs (snd (choice rs [2::nat, 3] n))))),
         snd (spawn rs (get_end (Branch st a len tlen d True cs stc)) a tlen d
                   (fst (choice rs [2::nat, 3] n)) cs (snd (choice rs [2::nat, 3] n))))
      else (Branch st a len tlen d fin cs (stc \<or> fin \<and> list_all static cs), n))"
  by (auto simp: case_prod_beta Let_def)

declare grow.simps [simp del]

lemma len_ok_sel:
  "len_ok b \<longleftrightarrow> 0 \<le> length_b b \<and> length_b b \<le> target_length b \<and> list_all len_ok (children b)"
  by (cases b) simp

lemma len_ok_fresh: "0 \<le> l \<Longrightarrow> len_ok (Branch_init e a l d)"
  by (simp add: Branch_init_def)

lemma grow_len_ok: "len_ok b \<Longrightarrow> len_ok (fst (grow rs b n))"
proof (cases b)
  case (Branch st a len tlen d fin cs stc)
  assume ok: "len_ok b"
  have "list_all len_ok (fst (spawn rs e a tlen d k cs m))" for e k m
    using ok Branch by (intro spawn_list_all len_ok_fresh) (simp_all add: MIN_BRANCH_LENGTH_def)
  with ok Branch show ?thesis
    by (simp add: grow_cases GROWTH_SPEED_def)
qed

lemma update_len_ok:
  "len_ok self \<Longrightarrow> len_ok (fst (update rs g self n))"
  "list_all len_ok cs \<Longrightarrow> list_all len_ok (fst (update_children rs g cs n))"
proof (induction rs g self n and rs g cs n rule: update_update_children.induct)
  case (1 rs g self n)
  show ?case
  proof (cases "static self")
    case True
    with "1.prems" show ?thesis by (simp add: update_static)
  next
    case False
    define r where "r = (if g then grow rs self n else (self, n))"
    have ok1: "len_ok (fst r)"
      using "1.prems" by (simp add: r_def grow_len_ok)
    then have "list_all len_ok (children (fst r))"
      by (simp add: len_ok_sel [of "fst r"])
    then have "list_all len_ok (fst (update_children rs g (children (fst r)) (snd r)))"
      using "1.IH" [OF False refl, of "fst r" "snd r"] by (simp add: r_def)
    with ok1 show ?thesis
      unfolding update_not_static [OF False] r_def [symmetric]
      by (simp add: len_ok_sel [of "fst r"])
  qed
next
  case (2 rs g n)
  then show ?case by simp
next
  case (3 rs g child rest n)
  from "3.prems" have c: "len_ok child" and r: "list_all len_ok rest" by simp_all
  have "len_ok (fst (update rs g child n))" using "3.IH"(1) c by simp
  moreover have "list_all len_ok (fst (update_children rs g rest (snd (update rs g child n))))"
    using "3.IH"(2) [OF refl, of "fst (update rs g child n)" "snd (update rs g child n)"] r by simp
  ultimately show ?case by (simp add: case_prod_beta Let_def)
qed

lemma instant_spawn_Suc:
  "instant_spawn rs endp a tlen d (Suc k) cs n =
     (if MIN_BRANCH_LENGTH \<le> tlen * fst (uniform rs (8 / 10) BRANCH_FACTOR
            (snd (if d = 1 then (0, n) else uniform rs (- BRANCH_ANGLE) BRANCH_ANGLE n)))
      then instant_spawn rs endp a tlen d k
             (cs @ [fst (grow_branch_instantly rs
                      (Branch_init endp (a + fst (if d = 1 then (0, n) else uniform rs (- BRANCH_ANGLE) BRANCH_ANGLE n))
                      (tlen * fst (uniform rs (8 / 10) BRANCH_FACTOR
                         (snd (if d = 1 then (0, n) else uniform rs (- BRANCH_ANGLE) BRANCH_ANGLE n)))) (d + 1))
                      (snd (uniform rs (8 / 10) BRANCH_FACTOR
                         (snd (if d = 1 then (0, n) else uniform rs (- BRANCH_ANGLE) BRANCH_ANGLE n)))))])
             (snd (grow_branch_instantly rs
                      (Branch_init endp (a + fst (if d = 1 then (0, n) else uniform rs (- BRANCH_ANGLE) BRANCH_ANGLE n))
                      (tlen * fst (uniform rs (8 / 10) BRANCH_FACTOR
                         (snd (if d = 1 then (0, n) else uniform rs (- BRANCH_ANGLE) BRANCH_ANGLE n)))) (d + 1))
                      (snd (uniform rs (8 / 10) BRANCH_FACTOR
                         (snd (if d = 1 then (0, n) else uniform rs (- BRANCH_ANGLE) BRANCH_ANGLE n))))))
      else instant_spawn rs endp a tlen d k cs
             (snd (uniform rs (8 / 10) BRANCH_FACTOR
                (snd (if d = 1 then (0, n) else uniform rs (- BRANCH_ANGLE) BRANCH_ANGLE n)))))"
  by (simp add: instant_spawn.simps case_prod_beta Let_def)

lemma grow_branch_instantly_cases:
  "grow_branch_instantly rs (Branch st a len tlen d fin cs stc) n =
     (if \<not> fin \<and> d < MAX_DEPTH \<and> tlen > MIN_BRANCH_LENGTH then
        (Branch st a tlen tlen d True
           (fst (instant_spawn rs (get_end (Branch st a tlen tlen d True cs stc)) a tlen d
                   (fst (choice rs [2::nat, 3] n)) cs (snd (choice rs [2::nat, 3] n))))
           stc,
         snd (instant_spawn rs (get_end (Branch st a tlen tlen d True cs stc)) a tlen d
                   (fst (choice rs [2::nat, 3] n)) cs (snd (choice rs [2::nat, 3] n))))
      else (Branch st a tlen tlen d fin cs stc, n))"
  by (simp add: grow_branch_instantly.simps case_prod_beta Let_def)

text \<open>A property of branches that holds for every new branch of positive length and is
  kept by the branch when its fields other than the children change as in
  \<^verbatim>\<open>grow_branch_instantly\<close> is kept by the whole call.\<close>

lemma instant_list_all:
  assumes fresh: "\<And>e x l dd. MIN_BRANCH_LENGTH \<le> l \<Longrightarrow> P (Branch_init e x l dd)"
    and step: "\<And>st a len tlen d fin cs stc cs'. P (Branch st a len tlen d fin cs stc) \<Longrightarrow>
        list_all P cs' \<Longrightarrow> \<not> fin \<and> d < MAX_DEPTH \<and> tlen > MIN_BRANCH_LENGTH \<Longrightarrow>
        P (Branch st a tlen tlen d True cs' stc)"
    and keep: "\<And>st a len tlen d fin cs stc. P (Branch st a len tlen d fin cs stc) \<Longrightarrow>
        P (Branch st a tlen tlen d fin cs stc)"
    and kids: "\<And>st a len tlen d fin cs stc. P (Branch st a len tlen d fin cs stc) \<Longrightarrow> list_all P cs"
  shows "P b \<Longrightarrow> P (fst (grow_branch_instantly rs b n))"
    and "list_all P cs \<Longrightarrow> list_all P (fst (instant_spawn rs endp a tlen d k cs n))"
proof (induction rs b n and rs endp a tlen d k cs n rule: grow_branch_instantly_instant_spawn.induct)
  case (1 rs st a len tlen d fin cs stc n)
  show ?case
  proof (cases "\<not> fin \<and> d < MAX_DEPTH \<and> tlen > MIN_BRANCH_LENGTH")
    case True
    have "list_all P cs" using "1.prems" by (rule kids)
    then have "list_all P (fst (instant_spawn rs (get_end (Branch st a tlen tlen d True cs stc)) a tlen d
        (fst (choice rs [2::nat, 3] n)) cs (snd (choice rs [2::nat, 3] n))))"
      by (intro "1.IH" [OF True refl]) (simp_all add: prod_eq_iff)
    then show ?thesis
      unfolding grow_branch_instantly_cases if_P [OF True]
      using "1.prems" True by (simp add: step)
  next
    case False
    show ?thesis
      unfolding grow_branch_instantly_cases if_not_P [OF False]
      using "1.prems" by (simp add: keep)
  qed
next
  case (2 rs endp a tlen d cs n)
  then show ?case by (simp add: instant_spawn.simps)
next
  case (3 rs endp a tlen d k cs n)
  define dn where "dn = (if d = 1 then (0, n) else uniform rs (- BRANCH_ANGLE) BRANCH_ANGLE n)"
  define rn where "rn = uniform rs (8 / 10) BRANCH_FACTOR (snd dn)"
  define new_length where "new_length = tlen * fst rn"
  define cn where "cn = grow_branch_instantly rs (Branch_init endp (a + fst dn) new_length (d + 1)) (snd rn)"
  have unfold_dn: "(if d = 1 then (0, n) else uniform rs (- BRANCH_ANGLE) BRANCH_ANGLE n) = dn"
    by (simp add: dn_def)
  show ?case
  proof (cases "new_length \<ge> MIN_BRANCH_LENGTH")
    case True
    have "P (Branch_init endp (a + fst dn) new_length (d + 1))"
      using True by (rule fresh)
    then have "P (fst cn)"
      unfolding cn_def
      by (rule "3.IH"(1) [OF dn_def prod.collapse rn_def prod.collapse new_length_def True])
    then have "list_all P (cs @ [fst cn])" using "3.prems" by simp
    then have "list_all P (fst (instant_spawn rs endp a tlen d k (cs @ [fst cn]) (snd cn)))"
      by (rule "3.IH"(2) [OF dn_def prod.collapse rn_def prod.collapse new_length_def True
            cn_def prod.collapse])
    with True show ?thesis
      unfolding instant_spawn_Suc unfold_dn rn_def [symmetric] new_length_def [symmetric] cn_def [symmetric]
      by simp
  next
    case False
    have "list_all P (fst (instant_spawn rs endp a tlen d k cs (snd rn)))"
      using "3.prems"
      by (rule "3.IH"(3) [OF dn_def prod.collapse rn_def prod.collapse new_length_def False])
    with False show ?thesis
      unfolding instant_spawn_Suc unfold_dn rn_def [symmetric] new_length_def [symmetric]
      by simp
  qed
qed

lemma static_ok_sel:
  "static_ok b \<longleftrightarrow> (static b \<longrightarrow> finished b \<and> list_all static (children b)) \<and> list_all static_ok (children b)"
  by (cases b) simp

lemma static_ok_fresh: "static_ok (Branch_init e a l d)"
  by (simp add: Branch_init_def)

lemma update_children_static: "list_all static cs \<Longrightarrow> update_children rs g cs n = (cs, n)"
  by (induction cs arbitrary: n) (simp_all add: update_static)

lemma grow_static_ok: "static_ok b \<Longrightarrow> static_ok (fst (grow rs b n))"
proof (cases b)
  case (Branch st a len tlen d fin cs stc)
  assume ok: "static_ok b"
  have "list_all static_ok (fst (spawn rs e a tlen d k cs m))" for e k m
    using ok Branch by (intro spawn_list_all static_ok_fresh) simp
  with ok Branch show ?thesis
    by (auto simp add: grow_cases)
qed

lemma update_static_ok:
  "static_ok self \<Longrightarrow> static_ok (fst (update rs g self n))"
  "list_all static_ok cs \<Longrightarrow> list_all static_ok (fst (update_children rs g cs n))"
proof (induction rs g self n and rs g cs n rule: update_update_children.induct)
  case (1 rs g self n)
  show ?case
  proof (cases "static self")
    case True
    with "1.prems" show ?thesis by (simp add: update_static)
  next
    case False
    define r where "r = (if g then grow rs self n else (self, n))"
    have ok1: "static_ok (fst r)"
      using "1.prems" by (simp add: r_def grow_static_ok)
    then have kids: "list_all static_ok (children (fst r))"
      by (simp add: static_ok_sel [of "fst r"])
    have kids': "list_all static_ok (fst (update_children rs g (children (fst r)) (snd r)))"
      using "1.IH" [OF False refl, of "fst r" "snd r"] kids by (simp add: r_def)
    have same: "fst (update_children rs g (children (fst r)) (snd r)) = children (fst r)"
      if "static (fst r)"
      using that ok1 by (simp add: static_ok_sel [of "fst r"] update_children_static)
    show ?thesis
      unfolding update_not_static [OF False] r_def [symmetric]
      using ok1 kids' same by (auto simp add: static_ok_sel [of "fst r"])
  qed
next
  case (2 rs g n)
  then show ?case by simp
next
  case (3 rs g child rest n)
  from "3.prems" have c: "static_ok child" and r: "list_all static_ok rest" by simp_all
  have "static_ok (fst (update rs g child n))" using "3.IH"(1) c by simp
  moreover have "list_all static_ok (fst (update_children rs g rest (snd (update rs g child n))))"
    using "3.IH"(2) [OF refl, of "fst (update rs g child n)" "snd (update rs g child n)"] r by simp
  ultimately show ?case by (simp add: case_prod_beta Let_def)
qed

lemma instant_static_ok: "static_ok b \<Longrightarrow> static_ok (fst (grow_branch_instantly rs b n))"
  by (rule instant_list_all(1) [where P = static_ok]) (auto simp: static_ok_fresh)

lemma instant_len_ok: "len_ok b \<Longrightarrow> len_ok (fst (grow_branch_instantly rs b n))"
  by (rule instant_list_all(1) [where P = len_ok]) (auto simp: len_ok_fresh MIN_BRANCH_LENGTH_def)

lemma self_in_subtree: "b \<in> subtree b"
  by (cases b) simp

lemma subtree_sel: "subtree b = insert b (\<Union>c \<in> set (children b). subtree c)"
  by (cases b) simp

lemma len_ok_subtree:
  "len_ok b \<Longrightarrow> c \<in> subtree b \<Longrightarrow> 0 \<le> length_b c \<and> length_b c \<le> target_length c"
  by (induction b arbitrary: c) (auto simp: list_all_iff)

lemma static_ok_subtree:
  "static_ok b \<Longrightarrow> c \<in> subtree b \<Longrightarrow> static c \<Longrightarrow> finished c \<and> (\<forall>c' \<in> set (children c). static c')"
  by (induction b arbitrary: c) (auto simp: list_all_iff)

lemma static_subtree:
  "static_ok b \<Longrightarrow> static b \<Longrightarrow> c \<in> subtree b \<Longrightarrow> static c"
  by (induction b arbitrary: c) (auto simp: list_all_iff)

lemma subtree_trans: "c \<in> subtree b \<Longrightarrow> c' \<in> subtree c \<Longrightarrow> c' \<in> subtree b"
  by (induction b arbitrary: c c') (auto simp: self_in_subtree)

lemma static_ok_sub: "static_ok b \<Longrightarrow> c \<in> subtree b \<Longrightarrow> static_ok c"
  by (induction b arbitrary: c) (auto simp: list_all_iff)

lemma spawn_prefix: "\<exists>new. fst (spawn rs endp a tlen d k cs n) = cs @ new"
proof (induction k arbitrary: cs n)
  case 0
  then show ?case by simp
next
  case (Suc k)
  show ?case
  proof (subst spawn_Suc, split if_split, intro conjI impI, goal_cases)
    case 1
    obtain new where "fst (spawn rs endp a tlen d k
             (cs @ [Branch_init endp (a + fst (if d = 1 then (0, n) else uniform rs (- BRANCH_ANGLE) BRANCH_ANGLE n))
                      (tlen * fst (uniform rs (8 / 10) BRANCH_FACTOR
                         (snd (if d = 1 then (0, n) else uniform rs (- BRANCH_ANGLE) BRANCH_ANGLE n)))) (d + 1)])
             (snd (uniform rs (8 / 10) BRANCH_FACTOR
                (snd (if d = 1 then (0, n) else uniform rs (- BRANCH_ANGLE) BRANCH_ANGLE n))))) =
        (cs @ [Branch_init endp (a + fst (if d = 1 then (0, n) else uniform rs (- BRANCH_ANGLE) BRANCH_ANGLE n))
                      (tlen * fst (uniform rs (8 / 10) BRANCH_FACTOR
                         (snd (if d = 1 then (0, n) else uniform rs (- BRANCH_ANGLE) BRANCH_ANGLE n)))) (d + 1)]) @ new"
      using Suc.IH by blast
    then show ?case by simp
  next
    case 2
    show ?case by (rule Suc.IH)
  qed
qed

lemma grow_children_prefix: "\<exists>new. children (fst (grow rs b n)) = children b @ new"
proof (cases b)
  case (Branch st a len tlen d fin cs stc)
  show ?thesis
    unfolding Branch grow_cases
    using spawn_prefix [of rs "get_end (Branch st a len tlen d True cs stc)" a tlen d
        "fst (choice rs [2::nat, 3] n)" cs "snd (choice rs [2::nat, 3] n)"]
    by auto
qed

lemma grow_target_length: "target_length (fst (grow rs b n)) = target_length b"
  by (cases b) (simp add: grow_cases)

lemma update_target_length: "target_length (fst (update rs g b n)) = target_length b"
  by (cases "static b") (simp_all add: update_static update_not_static grow_target_length)

lemma instant_target_length: "target_length (fst (grow_branch_instantly rs b n)) = target_length b"
  by (cases b) (simp add: grow_branch_instantly_cases)

lemma update_children_length: "length (fst (update_children rs g cs n)) = length cs"
  by (induction cs arbitrary: n) (simp_all add: case_prod_beta Let_def)

lemma update_children_nth:
  "i < length cs \<Longrightarrow> \<exists>m. fst (update_children rs g cs n) ! i = fst (update rs g (cs ! i) m)"
proof (induction cs arbitrary: i n)
  case Nil
  then show ?case by simp
next
  case (Cons c cs)
  show ?case
  proof (cases i)
    case 0
    then show ?thesis by (auto simp: case_prod_beta Let_def)
  next
    case (Suc j)
    with Cons.prems have "j < length cs" by simp
    from Cons.IH [OF this, of "snd (update rs g c n)"] Suc show ?thesis
      by (simp add: case_prod_beta Let_def)
  qed
qed

lemma update_descend_static:
  "descend p b = Some c \<Longrightarrow> static c \<Longrightarrow> descend p (fst (update rs g b n)) = Some c"
proof (induction p arbitrary: b n)
  case Nil
  then show ?case by (simp add: update_static)
next
  case (Cons i p)
  show ?case
  proof (cases "static b")
    case True
    with Cons.prems show ?thesis by (simp add: update_static)
  next
    case False
    define r where "r = (if g then grow rs b n else (b, n))"
    from Cons.prems(1) have i: "i < length (children b)" and sub: "descend p (children b ! i) = Some c"
      by (simp_all split: if_splits)
    have "\<exists>new. children (fst r) = children b @ new"
      using grow_children_prefix [of rs b n] by (cases g) (simp_all add: r_def)
    then obtain new where new: "children (fst r) = children b @ new" ..
    have i': "i < length (children (fst r))" using i new by simp
    have nth: "children (fst r) ! i = children b ! i" using i new by (simp add: nth_append)
    obtain m where m: "fst (update_children rs g (children (fst r)) (snd r)) ! i
        = fst (update rs g (children b ! i) m)"
      using update_children_nth [OF i', of rs g "snd r"] nth by auto
    have "descend p (fst (update rs g (children b ! i) m)) = Some c"
      using sub Cons.prems(2) by (rule Cons.IH)
    then show ?thesis
      unfolding update_not_static [OF False] r_def [symmetric]
      using i' m by (simp add: update_children_length)
  qed
qed

lemma updates_descend_static:
  "descend p b = Some c \<Longrightarrow> static c \<Longrightarrow> descend p (fst (updates rs gs b n)) = Some c"
proof (induction gs arbitrary: b n)
  case Nil
  then show ?case by simp
next
  case (Cons g gs)
  have "descend p (fst (update rs g b n)) = Some c"
    using Cons.prems by (rule update_descend_static)
  then have "descend p (fst (updates rs gs (fst (update rs g b n)) (snd (update rs g b n)))) = Some c"
    using Cons.prems(2) by (rule Cons.IH)
  then show ?case by (simp add: case_prod_beta Let_def)
qed

lemma apply_call_inv:
  "len_ok b \<Longrightarrow> len_ok (fst (apply_call rs c b n))"
  "static_ok b \<Longrightarrow> static_ok (fst (apply_call rs c b n))"
  "target_length (fst (apply_call rs c b n)) = target_length b"
  by (cases c; simp add: update_len_ok instant_len_ok update_static_ok instant_static_ok
      update_target_length instant_target_length)+

lemma run_inv:
  "len_ok b \<Longrightarrow> len_ok (fst (run rs cs b n))"
  "static_ok b \<Longrightarrow> static_ok (fst (run rs cs b n))"
  "target_length (fst (run rs cs b n)) = target_length b"
  by (induction cs arbitrary: b n; simp add: case_prod_beta Let_def apply_call_inv)+

lemma instant_result:
  "\<not> finished b \<Longrightarrow> children b = [] \<Longrightarrow> instant_ok (fst (grow_branch_instantly rs b n))"
  "list_all instant_ok cs \<Longrightarrow> list_all instant_ok (fst (instant_spawn rs endp a tlen d k cs n))"
proof (induction rs b n and rs endp a tlen d k cs n rule: grow_branch_instantly_instant_spawn.induct)
  case (1 rs st a len tlen d fin cs stc n)
  show ?case
  proof (cases "\<not> fin \<and> d < MAX_DEPTH \<and> tlen > MIN_BRANCH_LENGTH")
    case True
    have "list_all instant_ok (fst (instant_spawn rs (get_end (Branch st a tlen tlen d True cs stc)) a tlen d
        (fst (choice rs [2::nat, 3] n)) cs (snd (choice rs [2::nat, 3] n))))"
      using "1.prems" by (intro "1.IH" [OF True refl]) (simp_all add: prod_eq_iff)
    then show ?thesis
      unfolding grow_branch_instantly_cases if_P [OF True]
      using True by simp
  next
    case False
    show ?thesis
      unfolding grow_branch_instantly_cases if_not_P [OF False]
      using "1.prems" False by simp
  qed
next
  case (2 rs endp a tlen d cs n)
  then show ?case by (simp add: instant_spawn.simps)
next
  case (3 rs endp a tlen d k cs n)
  define dn where "dn = (if d = 1 then (0, n) else uniform rs (- BRANCH_ANGLE) BRANCH_ANGLE n)"
  define rn where "rn = uniform rs (8 / 10) BRANCH_FACTOR (snd dn)"
  define new_length where "new_length = tlen * fst rn"
  define cn where "cn = grow_branch_instantly rs (Branch_init endp (a + fst dn) new_length (d + 1)) (snd rn)"
  have unfold_dn: "(if d = 1 then (0, n) else uniform rs (- BRANCH_ANGLE) BRANCH_ANGLE n) = dn"
    by (simp add: dn_def)
  show ?case
  proof (cases "new_length \<ge> MIN_BRANCH_LENGTH")
    case True
    have "instant_ok (fst cn)"
      unfolding cn_def
      by (rule "3.IH"(1) [OF dn_def prod.collapse rn_def prod.collapse new_length_def True])
        (simp_all add: Branch_init_def)
    then have "list_all instant_ok (cs @ [fst cn])" using "3.prems" by simp
    then have "list_all instant_ok (fst (instant_spawn rs endp a tlen d k (cs @ [fst cn]) (snd cn)))"
      by (rule "3.IH"(2) [OF dn_def prod.collapse rn_def prod.collapse new_length_def True
            cn_def prod.collapse])
    with True show ?thesis
      unfolding instant_spawn_Suc unfold_dn rn_def [symmetric] new_length_def [symmetric] cn_def [symmetric]
      by simp
  next
    case False
    have "list_all instant_ok (fst (instant_spawn rs endp a tlen d k cs (snd rn)))"
      using "3.prems"
      by (rule "3.IH"(3) [OF dn_def prod.collapse rn_def prod.collapse new_length_def False])
    with False show ?thesis
      unfolding instant_spawn_Suc unfold_dn rn_def [symmetric] new_length_def [symmetric]
      by simp
  qed
qed

lemmas sim_eval = update.simps grow.simps grow_branch_instantly.simps instant_spawn.simps
  Branch_init_def GROWTH_SPEED_def MIN_BRANCH_LENGTH_def MAX_DEPTH_def BRANCH_FACTOR_def
  choice_def uniform_def get_end_def Let_def zero_draws_def

section \<open>Tree layout: unfolding lemmas and invariants\<close>

declare place_nodes_recursively.simps [simp del] place_children.simps [simp del]

lemma child_delta_eq:
  "(if num_branches = 1 then 0
    else (let spread = branch_angle self * 2
          in (real i / real_of_int (int num_branches - 1)) * spread - spread / 2))
   = child_delta self num_branches i"
  by (simp add: child_delta_def Let_def)

lemma place_nodes_recursively_eq:
  "place_nodes_recursively self rs node_id ts sx sy ang len dep s =
     (if dep \<ge> max_depth self \<or> len < min_branch_length self then s
      else if kids_of ts node_id = [] then s
      else place_children self rs ts sx sy ang len dep (length (kids_of ts node_id))
             (enumerate 0 (kids_of ts node_id)) s)"
  by (simp add: place_nodes_recursively.simps kids_of_def Let_def)

lemma place_children_Nil: "place_children self rs ts sx sy ang len dep k [] s = s"
  by (simp add: place_children.simps)

lemma place_children_Cons:
  "place_children self rs ts sx sy ang len dep k ((i, c) # rest) s =
     (if c \<in> positioned_nodes s then place_children self rs ts sx sy ang len dep k rest s
      else place_children self rs ts sx sy ang len dep k rest
             (place_nodes_recursively self rs c ts
                (fst (child_pos self sx sy ang len k i)) (snd (child_pos self sx sy ang len k i))
                (ang + child_delta self k i) (next_length self rs len (draws s)) (dep + 1)
                (store_child self rs sx sy ang len k i c s)))"
  unfolding place_children.simps
  unfolding child_delta_eq
  by (simp add: Let_def child_pos_def store_child_def next_length_def uniform_def)

lemma place_induct [case_names node nil cons]:
  fixes P :: "tree_layout_algorithm \<Rightarrow> random_source \<Rightarrow> 'a \<Rightarrow> ('a \<rightharpoonup> 'a list)
      \<Rightarrow> real \<Rightarrow> real \<Rightarrow> real \<Rightarrow> real \<Rightarrow> int \<Rightarrow> 'a place_state \<Rightarrow> bool"
    and Q :: "tree_layout_algorithm \<Rightarrow> random_source \<Rightarrow> ('a \<rightharpoonup> 'a list)
      \<Rightarrow> real \<Rightarrow> real \<Rightarrow> real \<Rightarrow> real \<Rightarrow> int \<Rightarrow> nat \<Rightarrow> (nat \<times> 'a) list \<Rightarrow> 'a place_state \<Rightarrow> bool"
  assumes node: "\<And>self rs node ts sx sy ang len dep s.
      (\<not> (dep \<ge> max_depth self \<or> len < min_branch_length self) \<Longrightarrow> kids_of ts node \<noteq> [] \<Longrightarrow>
         Q self rs ts sx sy ang len dep (length (kids_of ts node)) (enumerate 0 (kids_of ts node)) s)
      \<Longrightarrow> P self rs node ts sx sy ang len dep s"
    and nil: "\<And>self rs ts sx sy ang len dep k s. Q self rs ts sx sy ang len dep k [] s"
    and cons: "\<And>self rs ts sx sy ang len dep k i c rest s.
      (c \<in> positioned_nodes s \<Longrightarrow> Q self rs ts sx sy ang len dep k rest s) \<Longrightarrow>
      (c \<notin> positioned_nodes s \<Longrightarrow>
         P self rs c ts (fst (child_pos self sx sy ang len k i)) (snd (child_pos self sx sy ang len k i))
           (ang + child_delta self k i) (next_length self rs len (draws s)) (dep + 1)
           (store_child self rs sx sy ang len k i c s)) \<Longrightarrow>
      (c \<notin> positioned_nodes s \<Longrightarrow>
         Q self rs ts sx sy ang len dep k rest
           (place_nodes_recursively self rs c ts
              (fst (child_pos self sx sy ang len k i)) (snd (child_pos self sx sy ang len k i))
              (ang + child_delta self k i) (next_length self rs len (draws s)) (dep + 1)
              (store_child self rs sx sy ang len k i c s))) \<Longrightarrow>
      Q self rs ts sx sy ang len dep k ((i, c) # rest) s"
  shows "P self rs node ts sx sy ang len dep s" and "Q self rs ts sx sy ang len dep k rest s"
proof (induction self rs node ts sx sy ang len dep s and self rs ts sx sy ang len dep k rest s
      rule: place_nodes_recursively_place_children.induct)
  case (1 self rs node_id ts start_x start_y ang len dep s)
  show ?case
  proof (rule node)
    assume a: "\<not> (dep \<ge> max_depth self \<or> len < min_branch_length self)" and b: "kids_of ts node_id \<noteq> []"
    show "Q self rs ts start_x start_y ang len dep (length (kids_of ts node_id)) (enumerate 0 (kids_of ts node_id)) s"
      using "1.IH" [of "kids_of ts node_id" "length (kids_of ts node_id)"] a b
      by (simp add: kids_of_def)
  qed
next
  case (2 self rs tree_structure start_x start_y ang len dep num_branches s)
  show ?case by (rule nil)
next
  case (3 self rs ts start_x start_y ang len dep num_branches i child_id rest s)
  show ?case
  proof (rule cons)
    assume "child_id \<in> positioned_nodes s"
    then show "Q self rs ts start_x start_y ang len dep num_branches rest s"
      by (rule "3.IH"(1))
  next
    assume notin: "child_id \<notin> positioned_nodes s"
    show "P self rs child_id ts (fst (child_pos self start_x start_y ang len num_branches i))
       (snd (child_pos self start_x start_y ang len num_branches i))
       (ang + child_delta self num_branches i) (next_length self rs len (draws s)) (dep + 1)
       (store_child self rs start_x start_y ang len num_branches i child_id s)"
      using "3.IH"(2) [OF notin refl refl refl refl refl refl refl]
      unfolding child_delta_eq
      by (simp add: child_pos_def store_child_def next_length_def uniform_def)
  next
    assume notin: "child_id \<notin> positioned_nodes s"
    show "Q self rs ts start_x start_y ang len dep num_branches rest
       (place_nodes_recursively self rs child_id ts
          (fst (child_pos self start_x start_y ang len num_branches i))
          (snd (child_pos self start_x start_y ang len num_branches i))
          (ang + child_delta self num_branches i) (next_length self rs len (draws s)) (dep + 1)
          (store_child self rs start_x start_y ang len num_branches i child_id s))"
      using "3.IH"(3) [OF notin refl refl refl refl refl refl refl refl]
      unfolding child_delta_eq
      by (simp add: child_pos_def store_child_def next_length_def uniform_def)
  qed
qed

lemma extends_refl: "extends s s"
  by (simp add: extends_def)

lemma extends_trans: "extends s s' \<Longrightarrow> extends s' s'' \<Longrightarrow> extends s s''"
  by (auto simp: extends_def)

lemma extends_store_child:
  "c \<notin> positioned_nodes s \<Longrightarrow> extends s (store_child self rs sx sy ang len k i c s)"
  by (auto simp: extends_def store_child_def)

lemma place_extends:
  "extends s (place_nodes_recursively self rs node ts sx sy ang len dep s)"
  "extends s (place_children self rs ts sx sy ang len dep k rest s)"
proof (induction self rs node ts sx sy ang len dep s and self rs ts sx sy ang len dep k rest s
    rule: place_induct)
  case (node self rs node ts sx sy ang len dep s)
  then show ?case
    by (simp add: place_nodes_recursively_eq extends_refl)
next
  case (nil self rs ts sx sy ang len dep k s)
  show ?case by (simp add: place_children_Nil extends_refl)
next
  case (cons self rs ts sx sy ang len dep k i c rest s)
  show ?case
  proof (cases "c \<in> positioned_nodes s")
    case True
    then show ?thesis using cons(1) by (simp add: place_children_Cons)
  next
    case False
    from extends_store_child [OF False] cons(2) [OF False] cons(3) [OF False]
    show ?thesis
      unfolding place_children_Cons if_not_P [OF False]
      by (blast intro: extends_trans)
  qed
qed

lemma consistent_store_child:
  "consistent s \<Longrightarrow> consistent (store_child self rs sx sy ang len k i c s)"
  by (auto simp: consistent_def store_child_def)

lemma place_consistent:
  "consistent s \<Longrightarrow> consistent (place_nodes_recursively self rs node ts sx sy ang len dep s)"
  "consistent s \<Longrightarrow> consistent (place_children self rs ts sx sy ang len dep k rest s)"
proof (induction self rs node ts sx sy ang len dep s and self rs ts sx sy ang len dep k rest s
    rule: place_induct)
  case (node self rs node ts sx sy ang len dep s)
  then show ?case
    by (simp add: place_nodes_recursively_eq)
next
  case (nil self rs ts sx sy ang len dep k s)
  then show ?case by (simp add: place_children_Nil)
next
  case (cons self rs ts sx sy ang len dep k i c rest s)
  show ?case
  proof (cases "c \<in> positioned_nodes s")
    case True
    then show ?thesis using cons(1,4) by (simp add: place_children_Cons)
  next
    case False
    show ?thesis
      unfolding place_children_Cons if_not_P [OF False]
      by (intro cons(3) [OF False] cons(2) [OF False] consistent_store_child cons(4))
  qed
qed

text \<open>A child that is not yet positioned when the loop reaches it is stored at the
  position computed from its index, and that entry is final.\<close>

lemma place_children_position:
  assumes "c \<notin> positioned_nodes s"
  shows "node_positions (place_children self rs ts sx sy ang len dep k ((i, c) # rest) s) c
    = Some (child_pos self sx sy ang len k i)"
proof -
  let ?s1 = "store_child self rs sx sy ang len k i c s"
  let ?s2 = "place_nodes_recursively self rs c ts
                (fst (child_pos self sx sy ang len k i)) (snd (child_pos self sx sy ang len k i))
                (ang + child_delta self k i) (next_length self rs len (draws s)) (dep + 1) ?s1"
  have "extends ?s1 ?s2" by (rule place_extends)
  moreover have "extends ?s2 (place_children self rs ts sx sy ang len dep k rest ?s2)"
    by (rule place_extends)
  ultimately have "extends ?s1 (place_children self rs ts sx sy ang len dep k rest ?s2)"
    by (rule extends_trans)
  moreover have "c \<in> positioned_nodes ?s1" "node_positions ?s1 c = Some (child_pos self sx sy ang len k i)"
    by (simp_all add: store_child_def)
  ultimately show ?thesis
    unfolding place_children_Cons if_not_P [OF assms]
    by (simp add: extends_def)
qed

lemma reachable_from_self: "x \<in> reachable_from ts x"
  by (simp add: reachable_from_def)

lemma kid_edge: "c \<in> set (kids_of ts p) \<Longrightarrow> (p, c) \<in> child_edges ts"
  by (cases "ts p") (auto simp: child_edges_def kids_of_def)

lemma snd_set_enumerate: "snd ` set (enumerate n xs) = set xs"
  using set_map [of snd "enumerate n xs"] by (simp only: map_snd_enumerate)

lemma reachable_from_kid:
  "c \<in> set (kids_of ts p) \<Longrightarrow> reachable_from ts c \<subseteq> reachable_from ts p"
proof
  fix x assume c: "c \<in> set (kids_of ts p)" and x: "x \<in> reachable_from ts c"
  from c have "(p, c) \<in> child_edges ts" by (rule kid_edge)
  moreover from x have "(c, x) \<in> (child_edges ts)\<^sup>*" by (simp add: reachable_from_def)
  ultimately show "x \<in> reachable_from ts p"
    by (auto simp: reachable_from_def intro: converse_rtrancl_into_rtrancl)
qed

lemma place_sound:
  "positioned_nodes (place_nodes_recursively self rs node ts sx sy ang len dep s)
     \<subseteq> positioned_nodes s \<union> reachable_from ts node"
  "positioned_nodes (place_children self rs ts sx sy ang len dep k rest s)
     \<subseteq> positioned_nodes s \<union> (\<Union>c \<in> snd ` set rest. reachable_from ts c)"
proof (induction self rs node ts sx sy ang len dep s and self rs ts sx sy ang len dep k rest s
    rule: place_induct)
  case (node self rs node ts sx sy ang len dep s)
  show ?case
  proof (cases "\<not> (dep \<ge> max_depth self \<or> len < min_branch_length self) \<and> kids_of ts node \<noteq> []")
    case True
    then have "positioned_nodes (place_children self rs ts sx sy ang len dep (length (kids_of ts node))
        (enumerate 0 (kids_of ts node)) s)
      \<subseteq> positioned_nodes s \<union> (\<Union>c \<in> snd ` set (enumerate 0 (kids_of ts node)). reachable_from ts c)"
      using node by simp
    also have "\<dots> \<subseteq> positioned_nodes s \<union> reachable_from ts node"
      using reachable_from_kid [of _ ts node] unfolding snd_set_enumerate by auto
    finally show ?thesis using True by (simp add: place_nodes_recursively_eq)
  next
    case False
    then show ?thesis by (auto simp: place_nodes_recursively_eq)
  qed
next
  case (nil self rs ts sx sy ang len dep k s)
  show ?case by (simp add: place_children_Nil)
next
  case (cons self rs ts sx sy ang len dep k i c rest s)
  show ?case
  proof (cases "c \<in> positioned_nodes s")
    case True
    then show ?thesis using cons(1) by (auto simp: place_children_Cons)
  next
    case False
    have "positioned_nodes (store_child self rs sx sy ang len k i c s) = insert c (positioned_nodes s)"
      by (simp add: store_child_def)
    with cons(2) [OF False] cons(3) [OF False] reachable_from_self [of c ts]
    show ?thesis
      unfolding place_children_Cons if_not_P [OF False]
      by auto
  qed
qed

lemma convex_lower:
  fixes q c f u :: real
  assumes "0 \<le> u" "u \<le> 1" "q \<le> c" "q \<le> f"
  shows "q \<le> c + (f - c) * u"
proof -
  have "0 \<le> (c - q) * (1 - u) + (f - q) * u"
    using assms by (intro add_nonneg_nonneg mult_nonneg_nonneg) simp_all
  then show ?thesis by (simp add: algebra_simps)
qed

lemma next_length_lower:
  assumes u: "0 \<le> unit_draws rs n" "unit_draws rs n \<le> 1"
    and q: "q \<le> 8 / 10" "q \<le> branch_factor self" and len: "0 \<le> len"
  shows "len * q \<le> next_length self rs len n"
  unfolding next_length_def
  using convex_lower [OF u q] len by (rule mult_left_mono)

lemma place_complete:
  fixes K :: "'a set" and B q :: real
  assumes K: "finite K" and wf: "wf_ts K ts"
    and u: "\<forall>n. 0 \<le> unit_draws rs n \<and> unit_draws rs n \<le> 1"
    and q: "0 \<le> q" "q \<le> 8 / 10" "q \<le> branch_factor self" and B: "0 \<le> B"
    and md: "int (card K) < max_depth self"
    and mbl: "min_branch_length self \<le> B * q ^ (card K - 1)"
  shows "positioned_nodes s \<subseteq> K \<Longrightarrow> 1 \<le> dep \<Longrightarrow> dep \<le> int (card (positioned_nodes s)) \<Longrightarrow>
      B * q ^ nat (dep - 1) \<le> len \<Longrightarrow>
      positioned_nodes (place_nodes_recursively self rs node ts sx sy ang len dep s) \<subseteq> K
      \<and> set (kids_of ts node) \<subseteq> positioned_nodes (place_nodes_recursively self rs node ts sx sy ang len dep s)
      \<and> closed_in ts (positioned_nodes s)
           (positioned_nodes (place_nodes_recursively self rs node ts sx sy ang len dep s))"
    and "positioned_nodes s \<subseteq> K \<Longrightarrow> 1 \<le> dep \<Longrightarrow> dep \<le> int (card (positioned_nodes s)) \<Longrightarrow>
      B * q ^ nat (dep - 1) \<le> len \<Longrightarrow> snd ` set rest \<subseteq> K \<Longrightarrow>
      positioned_nodes (place_children self rs ts sx sy ang len dep k rest s) \<subseteq> K
      \<and> snd ` set rest \<subseteq> positioned_nodes (place_children self rs ts sx sy ang len dep k rest s)
      \<and> closed_in ts (positioned_nodes s)
           (positioned_nodes (place_children self rs ts sx sy ang len dep k rest s))"
  using wf u q md mbl
proof (induction self rs node ts sx sy ang len dep s and self rs ts sx sy ang len dep k rest s
    rule: place_induct)
  case (node self rs node ts sx sy ang len dep s)
  have card: "card (positioned_nodes s) \<le> card K"
    using node.prems(1) K by (intro card_mono)
  have no_depth: "\<not> dep \<ge> max_depth self"
    using node.prems(3) card node.prems(10) by simp
  have "nat (dep - 1) \<le> card K - 1"
    using node.prems(2,3) card by simp
  then have "q ^ (card K - 1) \<le> q ^ nat (dep - 1)"
    using node.prems(7,8) by (intro power_decreasing) simp_all
  then have "B * q ^ (card K - 1) \<le> B * q ^ nat (dep - 1)"
    using B by (rule mult_left_mono)
  then have no_len: "\<not> len < min_branch_length self"
    using node.prems(4,11) by simp
  show ?case
  proof (cases "kids_of ts node = []")
    case True
    then show ?thesis
      using node.prems(1) by (simp add: place_nodes_recursively_eq closed_in_def)
  next
    case False
    have "snd ` set (enumerate 0 (kids_of ts node)) \<subseteq> K"
      using node.prems(5) by (simp add: snd_set_enumerate wf_ts_def)
    from node.IH [OF _ False node.prems(1-4) this node.prems(5-11)] no_depth no_len
    show ?thesis
      using False by (simp add: place_nodes_recursively_eq snd_set_enumerate)
  qed
next
  case (nil self rs ts sx sy ang len dep k s)
  then show ?case by (simp add: place_children_Nil closed_in_def)
next
  case (cons self rs ts sx sy ang len dep k i c rest s)
  have restK: "snd ` set rest \<subseteq> K" and cK: "c \<in> K" using cons.prems(5) by auto
  have finV: "finite (positioned_nodes s)" using cons.prems(1) K by (rule finite_subset)
  show ?case
  proof (cases "c \<in> positioned_nodes s")
    case True
    let ?s' = "place_children self rs ts sx sy ang len dep k rest s"
    have "extends s ?s'" by (rule place_extends)
    then have "c \<in> positioned_nodes ?s'" using True by (auto simp: extends_def)
    with cons.IH(1) [OF True cons.prems(1-4) restK cons.prems(6-12)] True
    show ?thesis by (simp add: place_children_Cons)
  next
    case False
    let ?s1 = "store_child self rs sx sy ang len k i c s"
    let ?s2 = "place_nodes_recursively self rs c ts
                (fst (child_pos self sx sy ang len k i)) (snd (child_pos self sx sy ang len k i))
                (ang + child_delta self k i) (next_length self rs len (draws s)) (dep + 1) ?s1"
    let ?s' = "place_children self rs ts sx sy ang len dep k rest ?s2"
    have V1: "positioned_nodes ?s1 = insert c (positioned_nodes s)" by (simp add: store_child_def)
    have p1: "positioned_nodes ?s1 \<subseteq> K" using cons.prems(1) cK by (simp add: V1)
    have p2: "1 \<le> dep + 1" using cons.prems(2) by simp
    have p3: "dep + 1 \<le> int (card (positioned_nodes ?s1))"
      using cons.prems(3) False finV by (simp add: V1)
    have len0: "0 \<le> len"
      using cons.prems(4) B cons.prems(8) by (meson mult_nonneg_nonneg order_trans zero_le_power)
    have "nat (dep + 1 - 1) = Suc (nat (dep - 1))" using cons.prems(2) by simp
    then have "B * q ^ nat (dep + 1 - 1) = (B * q ^ nat (dep - 1)) * q"
      by (simp only: power_Suc) simp
    also have "\<dots> \<le> len * q"
      using cons.prems(4,8) by (rule mult_right_mono)
    also have "\<dots> \<le> next_length self rs len (draws s)"
      using cons.prems(7,9,10) len0 by (intro next_length_lower) simp_all
    finally have p4: "B * q ^ nat (dep + 1 - 1) \<le> next_length self rs len (draws s)" .
    from cons.IH(2) [OF False p1 p2 p3 p4 cons.prems(6-12)]
    have s2: "positioned_nodes ?s2 \<subseteq> K" "set (kids_of ts c) \<subseteq> positioned_nodes ?s2"
      "closed_in ts (positioned_nodes ?s1) (positioned_nodes ?s2)" by simp_all
    have e12: "extends ?s1 ?s2" by (rule place_extends)
    have e2': "extends ?s2 ?s'" by (rule place_extends)
    have sub12: "positioned_nodes ?s1 \<subseteq> positioned_nodes ?s2" using e12 by (simp add: extends_def)
    have sub2': "positioned_nodes ?s2 \<subseteq> positioned_nodes ?s'" using e2' by (simp add: extends_def)
    have "card (positioned_nodes s) \<le> card (positioned_nodes ?s2)"
      using sub12 s2(1) K by (intro card_mono) (auto simp: V1 intro: finite_subset)
    then have q3: "dep \<le> int (card (positioned_nodes ?s2))" using cons.prems(3) by simp
    from cons.IH(3) [OF False s2(1) cons.prems(2) q3 cons.prems(4) restK cons.prems(6-12)]
    have s': "positioned_nodes ?s' \<subseteq> K" "snd ` set rest \<subseteq> positioned_nodes ?s'"
      "closed_in ts (positioned_nodes ?s2) (positioned_nodes ?s')" by simp_all
    have "c \<in> positioned_nodes ?s'" using sub12 sub2' by (auto simp: V1)
    moreover have "closed_in ts (positioned_nodes s) (positioned_nodes ?s')"
      unfolding closed_in_def
    proof
      fix x assume x: "x \<in> positioned_nodes ?s' - positioned_nodes s"
      show "set (kids_of ts x) \<subseteq> positioned_nodes ?s'"
      proof (cases "x \<in> positioned_nodes ?s2")
        case False
        with x s'(3) show ?thesis by (simp add: closed_in_def)
      next
        case True
        show ?thesis
        proof (cases "x = c")
          case True
          with s2(2) sub2' show ?thesis by auto
        next
          case False
          with True x have "x \<in> positioned_nodes ?s2 - positioned_nodes ?s1" by (simp add: V1)
          with s2(3) have "set (kids_of ts x) \<subseteq> positioned_nodes ?s2" by (simp add: closed_in_def)
          with sub2' show ?thesis by auto
        qed
      qed
    qed
    ultimately show ?thesis
      using s'(1,2) unfolding place_children_Cons if_not_P [OF False] by simp
  qed
qed

lemma fold_init_tree:
  "fold (\<lambda>node_id ts. ts(node_id \<mapsto> [])) ks m = (\<lambda>x. if x \<in> set ks then Some [] else m x)"
  by (induction ks arbitrary: m) (auto simp: fun_eq_iff)

lemma dom_add_link: "dom (add_link l ts) = dom ts"
  by (auto simp: add_link_def split: option.splits)

lemma add_link_apply:
  "add_link l ts p =
     map_option (\<lambda>cs. cs @ edge_targets (dom ts) p [l]) (ts p)"
  by (cases "ts p") (auto simp: add_link_def edge_targets_def dom_def split: option.splits)

lemma edge_targets_Cons:
  "edge_targets K p (l # ls) = edge_targets K p [l] @ edge_targets K p ls"
  by (simp add: edge_targets_def)

lemma fold_add_link_apply:
  "fold add_link links ts p = map_option (\<lambda>cs. cs @ edge_targets (dom ts) p links) (ts p)"
proof (induction links arbitrary: ts)
  case Nil
  show ?case by (cases "ts p") (simp_all add: edge_targets_def)
next
  case (Cons l links)
  have "fold add_link (l # links) ts p = fold add_link links (add_link l ts) p" by simp
  also have "\<dots> = map_option (\<lambda>cs. cs @ edge_targets (dom ts) p links) (add_link l ts p)"
    by (simp add: Cons.IH dom_add_link)
  also have "\<dots> = map_option (\<lambda>cs. cs @ edge_targets (dom ts) p (l # links)) (ts p)"
    by (cases "ts p") (simp_all add: add_link_apply edge_targets_Cons [of _ _ l links])
  finally show ?case .
qed

lemma build_tree_structure_apply:
  "build_tree_structure root_node nodes links p =
     (if p \<in> set (dict_keys nodes)
      then Some (edge_targets (set (dict_keys nodes)) p links) else None)"
proof -
  define m :: "'a \<rightharpoonup> 'a list"
    where "m = (\<lambda>x. if x \<in> set (dict_keys nodes) then Some [] else None)"
  have dm: "dom m = set (dict_keys nodes)"
    by (auto simp: m_def dom_def)
  have "build_tree_structure root_node nodes links p = fold add_link links m p"
    by (simp add: build_tree_structure_def fold_init_tree m_def)
  also have "\<dots> = map_option (\<lambda>cs. cs @ edge_targets (set (dict_keys nodes)) p links) (m p)"
    by (simp add: fold_add_link_apply dm)
  also have "\<dots> = (if p \<in> set (dict_keys nodes)
      then Some (edge_targets (set (dict_keys nodes)) p links) else None)"
    by (simp add: m_def)
  finally show ?thesis .
qed

lemma set_edge_targets: "set (edge_targets K p links) \<subseteq> K"
  by (auto simp: edge_targets_def split: option.splits if_splits)

lemma count_edge_targets:
  "p \<in> K \<Longrightarrow> c \<in> K \<Longrightarrow>
   count_list (edge_targets K p links) c
     = length (filter (\<lambda>l. link_from l = Some p \<and> link_to l = Some c) links)"
proof (induction links)
  case Nil
  show ?case by (simp add: edge_targets_def)
next
  case (Cons l links)
  have "count_list (edge_targets K p [l]) c = (if link_from l = Some p \<and> link_to l = Some c then 1 else 0)"
    using Cons.prems by (auto simp: edge_targets_def split: option.splits)
  then show ?case
    using Cons by (simp add: edge_targets_Cons [of _ _ l links])
qed

lemma wf_build_tree_structure:
  "wf_ts (set (dict_keys nodes)) (build_tree_structure root_node nodes links)"
  using set_edge_targets [of "set (dict_keys nodes)" _ links]
  by (auto simp: wf_ts_def kids_of_def build_tree_structure_apply)

lemma linked_to_fold:
  "fold (\<lambda>link s. case link_to link of Some t \<Rightarrow> insert t s | None \<Rightarrow> s) links A
     = A \<union> {t. \<exists>l \<in> set links. link_to l = Some t}"
  by (induction links arbitrary: A) (auto split: option.splits)

lemma linked_to_eq: "linked_to links = {t. \<exists>l \<in> set links. link_to l = Some t}"
  by (simp add: linked_to_def linked_to_fold)

lemma find_root_nodes_nonempty:
  assumes "nodes \<noteq> []"
  shows "\<exists>root_node rest. find_root_nodes set_order nodes links = Inr (root_node # rest)"
proof (cases "set_order (set (dict_keys nodes) - linked_to links)")
  case Nil
  with assms show ?thesis
    by (cases nodes) (simp_all add: find_root_nodes_def dict_keys_def)
next
  case (Cons r rs)
  then show ?thesis by (simp add: find_root_nodes_def)
qed

lemma layout_tree_eq:
  assumes "nodes \<noteq> []" and "find_root_nodes set_order nodes links = Inr (root_node # rest)"
  shows "layout_tree (TreeLayoutAlgorithm ba bf mbl md) set_order rs nodes links root_x root_y n =
    Inr (node_positions
      (place_nodes_recursively (TreeLayoutAlgorithm ba bf mbl md) rs root_node
         (build_tree_structure root_node nodes links) root_x root_y (- pi / 2)
         (real_of_int (fst (select_spec (int (length nodes))))) 1
         \<lparr> positioned_nodes = {root_node}, node_positions = [root_node \<mapsto> (root_x, root_y)],
           draws = n \<rparr>))"
proof -
  have "calculate_dynamic_parameters (TreeLayoutAlgorithm ba bf mbl md) (int (length nodes))
      = Inr (select_spec (int (length nodes)))"
    by (simp add: calculate_dynamic_parameters_def TreeLayoutAlgorithm_def select_spec_def)
  then show ?thesis
    using assms by (simp add: layout_tree_def Let_def case_prod_beta)
qed

lemma child_delta_spec: "0 < k \<Longrightarrow> child_delta self k i = delta_spec (branch_angle self) k i"
  by (simp add: child_delta_def delta_spec_def of_nat_diff)

lemma place_children_append:
  "place_children self rs ts sx sy ang len dep k (xs @ ys) s
     = place_children self rs ts sx sy ang len dep k ys
         (place_children self rs ts sx sy ang len dep k xs s)"
proof (induction xs arbitrary: s)
  case Nil
  show ?case by (simp add: place_children_Nil)
next
  case (Cons x xs)
  obtain i c where x: "x = (i, c)" by (cases x)
  show ?case
    unfolding x append_Cons place_children_Cons
    by (simp add: Cons.IH)
qed

lemma enumerate_split:
  assumes "i < length cs"
  shows "enumerate 0 cs = enumerate 0 (take i cs) @ (i, cs ! i) # enumerate (Suc i) (drop (Suc i) cs)"
proof -
  have "enumerate 0 cs = enumerate 0 (take i cs @ cs ! i # drop (Suc i) cs)"
    using assms by (simp add: id_take_nth_drop [symmetric])
  also have "\<dots> = enumerate 0 (take i cs) @ (i, cs ! i) # enumerate (Suc i) (drop (Suc i) cs)"
    using assms by (simp add: enumerate_append_eq min_def)
  finally show ?thesis .
qed

lemma place_nodes_recursively_turn:
  assumes ts: "tree_structure node_id = Some cs" and i: "i < length cs"
    and dep: "dep < max_depth self" and len: "min_branch_length self \<le> len"
  shows "place_nodes_recursively self rs node_id tree_structure sx sy ang len dep s
    = place_children self rs tree_structure sx sy ang len dep (length cs)
        ((i, cs ! i) # enumerate (Suc i) (drop (Suc i) cs))
        (place_children self rs tree_structure sx sy ang len dep (length cs) (enumerate 0 (take i cs)) s)"
proof -
  have kids: "kids_of tree_structure node_id = cs" using ts by (simp add: kids_of_def)
  have ne: "cs \<noteq> []" using i by auto
  have "place_nodes_recursively self rs node_id tree_structure sx sy ang len dep s
      = place_children self rs tree_structure sx sy ang len dep (length cs) (enumerate 0 cs) s"
    using dep len ne by (simp add: place_nodes_recursively_eq kids)
  also have "\<dots> = place_children self rs tree_structure sx sy ang len dep (length cs)
      ((i, cs ! i) # enumerate (Suc i) (drop (Suc i) cs))
      (place_children self rs tree_structure sx sy ang len dep (length cs) (enumerate 0 (take i cs)) s)"
    by (subst enumerate_split [OF i]) (rule place_children_append)
  finally show ?thesis .
qed

lemma place_children_fresh_at_turn:
  assumes i: "i < length cs" and fresh: "cs ! i \<notin> positioned_nodes s"
    and sep: "\<forall>j<i. cs ! i \<notin> reachable_from tree_structure (cs ! j)"
  shows "cs ! i \<notin> positioned_nodes
           (place_children self rs tree_structure sx sy ang len dep k (enumerate 0 (take i cs)) s)"
proof -
  have "positioned_nodes (place_children self rs tree_structure sx sy ang len dep k (enumerate 0 (take i cs)) s)
      \<subseteq> positioned_nodes s \<union> (\<Union>c \<in> snd ` set (enumerate 0 (take i cs)). reachable_from tree_structure c)"
    by (rule place_sound)
  moreover have "cs ! i \<notin> (\<Union>c \<in> set (take i cs). reachable_from tree_structure c)"
    using sep i by (auto simp: in_set_conv_nth)
  ultimately show ?thesis
    using fresh unfolding snd_set_enumerate by blast
qed

lemma sin_35_pos: "0 < sin (35 * pi / 180)"
  by (rule sin_gt_zero) (simp_all add: field_simps)

lemma rev_upt_map: "rev [0..<k] = map (\<lambda>j. k - 1 - j) [0..<k]"
  by (rule nth_equalityI) (simp_all add: rev_nth)

lemma delta_spec_reflect:
  assumes "1 < k" "i < k"
  shows "delta_spec ba k (k - 1 - i) = - delta_spec ba k i"
proof -
  have "real (k - 1 - i) = real (k - 1) - real i" using assms by (simp add: of_nat_diff)
  moreover have "real (k - 1) \<noteq> 0" using assms by simp
  ultimately show ?thesis
    using assms by (simp add: delta_spec_def field_simps)
qed

lemma delta_spec_symmetric_mset:
  assumes "1 < k"
  shows "image_mset (\<lambda>a. 2 * ang - a) (mset (map (\<lambda>j. ang + delta_spec ba k j) [0..<k]))
    = mset (map (\<lambda>j. ang + delta_spec ba k j) [0..<k])"
proof -
  have "image_mset (\<lambda>a. 2 * ang - a) (mset (map (\<lambda>j. ang + delta_spec ba k j) [0..<k]))
      = mset (map (\<lambda>a. 2 * ang - a) (map (\<lambda>j. ang + delta_spec ba k j) [0..<k]))"
    by (rule mset_map [symmetric])
  also have "map (\<lambda>a. 2 * ang - a) (map (\<lambda>j. ang + delta_spec ba k j) [0..<k])
      = map (\<lambda>j. 2 * ang - (ang + delta_spec ba k j)) [0..<k]"
    by (simp only: map_map o_def)
  also have "map (\<lambda>j. 2 * ang - (ang + delta_spec ba k j)) [0..<k]
      = map (\<lambda>j. ang + delta_spec ba k (k - 1 - j)) [0..<k]"
  proof (intro map_cong refl)
    fix j assume "j \<in> set [0..<k]"
    then have "j < k" by simp
    show "2 * ang - (ang + delta_spec ba k j) = ang + delta_spec ba k (k - 1 - j)"
      unfolding delta_spec_reflect [OF assms \<open>j < k\<close>] by simp
  qed
  also have "\<dots> = map (\<lambda>j. ang + delta_spec ba k j) (rev [0..<k])"
    by (simp add: rev_upt_map o_def)
  also have "mset \<dots> = mset (map (\<lambda>j. ang + delta_spec ba k j) [0..<k])"
    by (simp only: rev_map [symmetric] mset_rev)
  finally show ?thesis .
qed

lemma delta_spec_ends:
  assumes "1 < k"
  shows "delta_spec ba k 0 = - ba" "delta_spec ba k (k - 1) = ba"
  using assms by (simp_all add: delta_spec_def)

lemma closed_reachable:
  assumes root: "root_node \<in> V'" and kids: "set (kids_of ts root_node) \<subseteq> V'"
    and closed: "closed_in ts {root_node} V'"
  shows "reachable_from ts root_node \<subseteq> V'"
proof
  fix x assume "x \<in> reachable_from ts root_node"
  then have "(root_node, x) \<in> (child_edges ts)\<^sup>*" by (simp add: reachable_from_def)
  then show "x \<in> V'"
  proof (induction rule: rtrancl_induct)
    case base
    show ?case by (rule root)
  next
    case (step y z)
    from step.hyps(2) have z: "z \<in> set (kids_of ts y)"
      by (auto simp: child_edges_def kids_of_def)
    show ?case
    proof (cases "y = root_node")
      case True
      with z kids show ?thesis by auto
    next
      case False
      with step.IH closed have "set (kids_of ts y) \<subseteq> V'" by (simp add: closed_in_def)
      with z show ?thesis by auto
    qed
  qed
qed

lemma reachable_from_no_kids:
  assumes "kids_of ts root_node = []"
  shows "reachable_from ts root_node = {root_node}"
proof -
  have "x = root_node" if "(root_node, x) \<in> (child_edges ts)\<^sup>*" for x
    using that
  proof (cases rule: converse_rtranclE)
    case base
    then show ?thesis by simp
  next
    case (step y)
    from step(1) have "y \<in> set (kids_of ts root_node)"
      by (auto simp: child_edges_def kids_of_def)
    with assms show ?thesis by simp
  qed
  then show ?thesis by (auto simp: reachable_from_def)
qed

lemma select_spec_nonneg: "0 \<le> fst (select_spec k)"
  by (simp add: select_spec_def)

lemma layout_positions:
  fixes nodes :: "('a \<times> 'd) list"
  defines "ts \<equiv> \<lambda>root_node links. build_tree_structure root_node nodes links"
  defines "final \<equiv> \<lambda>ba bf mbl md rs root_node links root_x root_y n.
      place_nodes_recursively (TreeLayoutAlgorithm ba bf mbl md) rs root_node
         (build_tree_structure root_node nodes links) root_x root_y (- pi / 2)
         (real_of_int (fst (select_spec (int (length nodes))))) 1
         \<lparr> positioned_nodes = {root_node}, node_positions = [root_node \<mapsto> (root_x, root_y)],
           draws = n \<rparr>"
  shows "node_positions (final ba bf mbl md rs root_node links root_x root_y n) root_node = Some (root_x, root_y)"
    and "dom (node_positions (final ba bf mbl md rs root_node links root_x root_y n))
          \<subseteq> reachable_from (ts root_node links) root_node"
    and "int (length nodes) < md \<Longrightarrow> 0 \<le> bf \<Longrightarrow>
         \<forall>k. 0 \<le> unit_draws rs k \<and> unit_draws rs k \<le> 1 \<Longrightarrow>
         mbl \<le> real_of_int (fst (select_spec (int (length nodes)))) * (min (8 / 10) bf) ^ (length nodes - 1) \<Longrightarrow>
         dom (node_positions (final ba bf mbl md rs root_node links root_x root_y n))
          = reachable_from (ts root_node links) root_node"
proof -
  let ?self = "TreeLayoutAlgorithm ba bf mbl md"
  let ?B = "real_of_int (fst (select_spec (int (length nodes))))"
  let ?init = "\<lparr> positioned_nodes = {root_node}, node_positions = [root_node \<mapsto> (root_x, root_y)],
           draws = n \<rparr>"
  let ?fin = "final ba bf mbl md rs root_node links root_x root_y n"
  let ?ts = "ts root_node links"
  have fin: "?fin = place_nodes_recursively ?self rs root_node ?ts root_x root_y (- pi / 2) ?B 1 ?init"
    by (simp add: final_def ts_def)
  have ext: "extends ?init ?fin" unfolding fin by (rule place_extends)
  show root: "node_positions ?fin root_node = Some (root_x, root_y)"
    using ext by (simp add: extends_def)
  have "consistent ?init" by (simp add: consistent_def)
  then have cons: "consistent ?fin" unfolding fin by (rule place_consistent)
  have "positioned_nodes ?fin \<subseteq> positioned_nodes ?init \<union> reachable_from ?ts root_node"
    unfolding fin by (rule place_sound)
  then have sound: "positioned_nodes ?fin \<subseteq> reachable_from ?ts root_node"
    using reachable_from_self [of root_node ?ts] by auto
  then show dom: "dom (node_positions ?fin) \<subseteq> reachable_from ?ts root_node"
    using cons by (simp add: consistent_def)
  show "dom (node_positions ?fin) = reachable_from ?ts root_node"
    if md: "int (length nodes) < md" and bf: "0 \<le> bf"
      and u: "\<forall>k. 0 \<le> unit_draws rs k \<and> unit_draws rs k \<le> 1"
      and mbl: "mbl \<le> ?B * (min (8 / 10) bf) ^ (length nodes - 1)"
  proof (cases "root_node \<in> set (dict_keys nodes)")
    case False
    then have k: "kids_of ?ts root_node = []"
      by (simp add: ts_def kids_of_def build_tree_structure_apply)
    then have "?fin = ?init" by (simp add: fin place_nodes_recursively_eq)
    then show ?thesis by (simp add: reachable_from_no_kids [OF k])
  next
    case True
    let ?K = "set (dict_keys nodes)"
    let ?q = "min (8 / 10) bf"
    have cardK: "card ?K \<le> length nodes"
      using card_length [of "dict_keys nodes"] by (simp add: dict_keys_def)
    have q: "0 \<le> ?q" "?q \<le> 8 / 10" "?q \<le> branch_factor ?self"
      using bf by (simp_all add: TreeLayoutAlgorithm_def)
    have B: "0 \<le> ?B" using select_spec_nonneg by simp
    have md': "int (card ?K) < max_depth ?self"
      using md cardK by (simp add: TreeLayoutAlgorithm_def)
    have "?q ^ (length nodes - 1) \<le> ?q ^ (card ?K - 1)"
      using q(1,2) cardK by (intro power_decreasing) simp_all
    then have "?B * ?q ^ (length nodes - 1) \<le> ?B * ?q ^ (card ?K - 1)"
      using B by (rule mult_left_mono)
    with mbl have mbl': "min_branch_length ?self \<le> ?B * ?q ^ (card ?K - 1)"
      by (simp add: TreeLayoutAlgorithm_def)
    have "wf_ts ?K ?ts" unfolding ts_def by (rule wf_build_tree_structure)
    from place_complete(1) [OF _ this u q B md' mbl', of ?init 1 ?B root_node root_x root_y "- pi / 2"] True
    have "set (kids_of ?ts root_node) \<subseteq> positioned_nodes ?fin"
      and "closed_in ?ts {root_node} (positioned_nodes ?fin)"
      by (simp_all add: fin)
    moreover have "root_node \<in> positioned_nodes ?fin" using ext by (simp add: extends_def)
    ultimately have "reachable_from ?ts root_node \<subseteq> positioned_nodes ?fin"
      by (intro closed_reachable)
    with sound cons show ?thesis by (simp add: consistent_def)
  qed
qed

text \<open>The calls of a placement: which nodes they are on, that no node is called twice, how
  each call arises from its parent's, and that a call which passes the cut-off tests leaves
  every child of its node positioned.\<close>

declare place_calls.simps [simp del] place_children_calls.simps [simp del]

lemma place_children_all_positioned:
  "snd ` set rest \<subseteq> positioned_nodes (place_children self rs ts sx sy ang len dep k rest s)"
proof (induction rest arbitrary: s)
  case Nil
  show ?case by simp
next
  case (Cons x rest)
  obtain i c where x: "x = (i, c)" by (cases x)
  show ?case
  proof (cases "c \<in> positioned_nodes s")
    case True
    have "extends s (place_children self rs ts sx sy ang len dep k rest s)" by (rule place_extends)
    with True have "c \<in> positioned_nodes (place_children self rs ts sx sy ang len dep k rest s)"
      by (auto simp: extends_def)
    with Cons.IH [of s] True show ?thesis by (simp add: x place_children_Cons)
  next
    case False
    let ?s1 = "store_child self rs sx sy ang len k i c s"
    let ?s2 = "place_nodes_recursively self rs c ts
                (fst (child_pos self sx sy ang len k i)) (snd (child_pos self sx sy ang len k i))
                (ang + child_delta self k i) (next_length self rs len (draws s)) (dep + 1) ?s1"
    let ?s' = "place_children self rs ts sx sy ang len dep k rest ?s2"
    have "extends ?s1 ?s2" "extends ?s2 ?s'" by (rule place_extends)+
    moreover have "c \<in> positioned_nodes ?s1" by (simp add: store_child_def)
    ultimately have "c \<in> positioned_nodes ?s'" by (auto simp: extends_def)
    with Cons.IH [of ?s2] False show ?thesis by (simp add: x place_children_Cons)
  qed
qed

lemma place_calls_closed:
  "\<forall>p l d. (p, l, d) \<in> set (place_calls self rs node ts sx sy ang len dep s) \<longrightarrow>
      d < max_depth self \<longrightarrow> min_branch_length self \<le> l \<longrightarrow>
      set (kids_of ts p) \<subseteq> positioned_nodes (place_nodes_recursively self rs node ts sx sy ang len dep s)"
  "\<forall>p l d. (p, l, d) \<in> set (place_children_calls self rs ts sx sy ang len dep k rest s) \<longrightarrow>
      d < max_depth self \<longrightarrow> min_branch_length self \<le> l \<longrightarrow>
      set (kids_of ts p) \<subseteq> positioned_nodes (place_children self rs ts sx sy ang len dep k rest s)"
proof (induction self rs node ts sx sy ang len dep s and self rs ts sx sy ang len dep k rest s
    rule: place_induct)
  case (node self rs node ts sx sy ang len dep s)
  show ?case
  proof (cases "\<not> (dep \<ge> max_depth self \<or> len < min_branch_length self) \<and> kids_of ts node \<noteq> []")
    case True
    have "set (kids_of ts node) \<subseteq> positioned_nodes (place_children self rs ts sx sy ang len dep
        (length (kids_of ts node)) (enumerate 0 (kids_of ts node)) s)"
      using place_children_all_positioned [of "enumerate 0 (kids_of ts node)" self rs ts sx sy ang len dep
          "length (kids_of ts node)" s]
      by (simp only: snd_set_enumerate)
    with node True show ?thesis
      by (simp add: place_calls.simps place_nodes_recursively_eq)
  next
    case False
    then show ?thesis
      by (auto simp add: place_calls.simps place_nodes_recursively_eq)
  qed
next
  case (nil self rs ts sx sy ang len dep k s)
  show ?case by (simp add: place_children_calls.simps)
next
  case (cons self rs ts sx sy ang len dep k i c rest s)
  show ?case
  proof (cases "c \<in> positioned_nodes s")
    case True
    with cons(1) show ?thesis
      by (simp add: place_children_calls.simps place_children_Cons)
  next
    case False
    let ?s1 = "store_child self rs sx sy ang len k i c s"
    let ?s2 = "place_nodes_recursively self rs c ts
                (fst (child_pos self sx sy ang len k i)) (snd (child_pos self sx sy ang len k i))
                (ang + child_delta self k i) (next_length self rs len (draws s)) (dep + 1) ?s1"
    let ?s' = "place_children self rs ts sx sy ang len dep k rest ?s2"
    have "extends ?s2 ?s'" by (rule place_extends)
    then have sub: "positioned_nodes ?s2 \<subseteq> positioned_nodes ?s'" by (simp add: extends_def)
    from cons(2) [OF False] sub cons(3) [OF False]
    show ?thesis
      unfolding place_children_calls.simps place_children_Cons if_not_P [OF False] set_append Un_iff
      by blast
  qed
qed

lemma place_calls_eq:
  "place_calls self rs node ts sx sy ang len dep s =
     (node, len, dep) #
       (if dep \<ge> max_depth self \<or> len < min_branch_length self \<or> kids_of ts node = [] then []
        else place_children_calls self rs ts sx sy ang len dep (length (kids_of ts node))
               (enumerate 0 (kids_of ts node)) s)"
  by (simp add: place_calls.simps)

lemma place_nodes_recursively_eq2:
  "place_nodes_recursively self rs node ts sx sy ang len dep s =
       (if dep \<ge> max_depth self \<or> len < min_branch_length self \<or> kids_of ts node = [] then s
        else place_children self rs ts sx sy ang len dep (length (kids_of ts node))
               (enumerate 0 (kids_of ts node)) s)"
  by (simp add: place_nodes_recursively_eq)

lemma new_nodes_step:
  assumes "A = insert c (P2 - P1)" and "B = P' - P2" and "P1 = insert c P"
    and "P1 \<subseteq> P2" and "P2 \<subseteq> P'" and "c \<notin> P"
  shows "A \<union> B = P' - P"
  using assms by blast

lemma place_calls_nodes:
  "fst ` set (place_calls self rs node ts sx sy ang len dep s)
     = insert node (positioned_nodes (place_nodes_recursively self rs node ts sx sy ang len dep s)
                     - positioned_nodes s)"
  "fst ` set (place_children_calls self rs ts sx sy ang len dep k rest s)
     = positioned_nodes (place_children self rs ts sx sy ang len dep k rest s) - positioned_nodes s"
proof (induction self rs node ts sx sy ang len dep s and self rs ts sx sy ang len dep k rest s
    rule: place_induct)
  case (node self rs node ts sx sy ang len dep s)
  show ?case
  proof (cases "dep \<ge> max_depth self \<or> len < min_branch_length self \<or> kids_of ts node = []")
    case True
    then show ?thesis
      by (simp only: place_calls_eq place_nodes_recursively_eq2 if_True) simp
  next
    case False
    then have "fst ` set (place_children_calls self rs ts sx sy ang len dep (length (kids_of ts node))
               (enumerate 0 (kids_of ts node)) s)
       = positioned_nodes (place_children self rs ts sx sy ang len dep (length (kids_of ts node))
               (enumerate 0 (kids_of ts node)) s) - positioned_nodes s"
      by (intro node) simp_all
    with False show ?thesis
      by (simp only: place_calls_eq place_nodes_recursively_eq2 if_False) simp
  qed
next
  case (nil self rs ts sx sy ang len dep k s)
  show ?case by (simp add: place_children_calls.simps place_children_Nil)
next
  case (cons self rs ts sx sy ang len dep k i c rest s)
  show ?case
  proof (cases "c \<in> positioned_nodes s")
    case True
    with cons(1) show ?thesis
      by (simp add: place_children_calls.simps place_children_Cons)
  next
    case False
    let ?s1 = "store_child self rs sx sy ang len k i c s"
    let ?s2 = "place_nodes_recursively self rs c ts
                (fst (child_pos self sx sy ang len k i)) (snd (child_pos self sx sy ang len k i))
                (ang + child_delta self k i) (next_length self rs len (draws s)) (dep + 1) ?s1"
    let ?s' = "place_children self rs ts sx sy ang len dep k rest ?s2"
    have "extends ?s1 ?s2" "extends ?s2 ?s'" by (rule place_extends)+
    then have sub: "positioned_nodes ?s1 \<subseteq> positioned_nodes ?s2"
        "positioned_nodes ?s2 \<subseteq> positioned_nodes ?s'"
      by (simp_all add: extends_def)
    have s1: "positioned_nodes ?s1 = insert c (positioned_nodes s)" by (simp add: store_child_def)
    show ?thesis
      unfolding place_children_calls.simps place_children_Cons if_not_P [OF False] set_append image_Un
      by (rule new_nodes_step [OF cons(2) [OF False] cons(3) [OF False] s1 sub False])
  qed
qed

lemma place_calls_distinct:
  "node \<in> positioned_nodes s \<longrightarrow> distinct (map fst (place_calls self rs node ts sx sy ang len dep s))"
  "distinct (map fst (place_children_calls self rs ts sx sy ang len dep k rest s))"
proof (induction self rs node ts sx sy ang len dep s and self rs ts sx sy ang len dep k rest s
    rule: place_induct)
  case (node self rs node ts sx sy ang len dep s)
  show ?case
  proof
    assume "node \<in> positioned_nodes s"
    then have "node \<notin> fst ` set (place_children_calls self rs ts sx sy ang len dep (length (kids_of ts node))
               (enumerate 0 (kids_of ts node)) s)"
      by (simp add: place_calls_nodes(2))
    with node show "distinct (map fst (place_calls self rs node ts sx sy ang len dep s))"
      by (simp add: place_calls_eq)
  qed
next
  case (nil self rs ts sx sy ang len dep k s)
  show ?case by (simp add: place_children_calls.simps)
next
  case (cons self rs ts sx sy ang len dep k i c rest s)
  show ?case
  proof (cases "c \<in> positioned_nodes s")
    case True
    with cons(1) show ?thesis
      by (simp add: place_children_calls.simps)
  next
    case False
    let ?s1 = "store_child self rs sx sy ang len k i c s"
    let ?s2 = "place_nodes_recursively self rs c ts
                (fst (child_pos self sx sy ang len k i)) (snd (child_pos self sx sy ang len k i))
                (ang + child_delta self k i) (next_length self rs len (draws s)) (dep + 1) ?s1"
    have "extends ?s1 ?s2" by (rule place_extends)
    then have sub: "positioned_nodes ?s1 \<subseteq> positioned_nodes ?s2"
      by (simp_all add: extends_def)
    have s1: "c \<in> positioned_nodes ?s1" by (simp add: store_child_def)
    have "fst ` set (place_calls self rs c ts
                (fst (child_pos self sx sy ang len k i)) (snd (child_pos self sx sy ang len k i))
                (ang + child_delta self k i) (next_length self rs len (draws s)) (dep + 1) ?s1)
          \<inter> fst ` set (place_children_calls self rs ts sx sy ang len dep k rest ?s2) = {}"
      unfolding place_calls_nodes using sub s1 by blast
    with cons(2) [OF False] cons(3) [OF False] s1
    show ?thesis
      unfolding place_children_calls.simps if_not_P [OF False]
      by simp
  qed
qed

lemma made_from_mono:
  "made_from self rs ts calls x \<Longrightarrow> set calls \<subseteq> set calls' \<Longrightarrow> made_from self rs ts calls' x"
  unfolding made_from_def by blast

lemma place_calls_made_from:
  "\<forall>x \<in> set (place_calls self rs node ts sx sy ang len dep s).
      x = (node, len, dep) \<or> made_from self rs ts (place_calls self rs node ts sx sy ang len dep s) x"
  "\<forall>x \<in> set (place_children_calls self rs ts sx sy ang len dep k rest s).
      (fst x \<in> snd ` set rest \<and> snd (snd x) = dep + 1 \<and> (\<exists>j. fst (snd x) = next_length self rs len j))
      \<or> made_from self rs ts (place_children_calls self rs ts sx sy ang len dep k rest s) x"
proof (induction self rs node ts sx sy ang len dep s and self rs ts sx sy ang len dep k rest s
    rule: place_induct)
  case (node self rs node ts sx sy ang len dep s)
  show ?case
  proof (cases "dep \<ge> max_depth self \<or> len < min_branch_length self \<or> kids_of ts node = []")
    case True
    then show ?thesis by (simp add: place_calls_eq)
  next
    case False
    let ?cc = "place_children_calls self rs ts sx sy ang len dep (length (kids_of ts node))
               (enumerate 0 (kids_of ts node)) s"
    have eq: "place_calls self rs node ts sx sy ang len dep s = (node, len, dep) # ?cc"
      using False by (simp add: place_calls_eq)
    from False have ih: "\<forall>x \<in> set ?cc.
      (fst x \<in> snd ` set (enumerate 0 (kids_of ts node)) \<and> snd (snd x) = dep + 1
          \<and> (\<exists>j. fst (snd x) = next_length self rs len j))
      \<or> made_from self rs ts ?cc x"
      by (intro node) simp_all
    have "made_from self rs ts ((node, len, dep) # ?cc) x" if "x \<in> set ?cc" for x
    proof -
      from ih that consider
        (a) "fst x \<in> snd ` set (enumerate 0 (kids_of ts node))" "snd (snd x) = dep + 1"
            "\<exists>j. fst (snd x) = next_length self rs len j"
        | (b) "made_from self rs ts ?cc x" by blast
      then show ?thesis
      proof cases
        case a
        from a(1) have "fst x \<in> set (kids_of ts node)" by (simp only: snd_set_enumerate)
        moreover from a(3) obtain j where "fst (snd x) = next_length self rs len j" ..
        ultimately show ?thesis
          unfolding made_from_def using a(2) False
          by (intro exI [of _ node] exI [of _ len] exI [of _ j]) simp
      next
        case b
        then show ?thesis by (rule made_from_mono) auto
      qed
    qed
    then show ?thesis unfolding eq by auto
  qed
next
  case (nil self rs ts sx sy ang len dep k s)
  show ?case by (simp add: place_children_calls.simps)
next
  case (cons self rs ts sx sy ang len dep k i c rest s)
  show ?case
  proof (cases "c \<in> positioned_nodes s")
    case True
    with cons(1) show ?thesis
      by (simp add: place_children_calls.simps) blast
  next
    case False
    let ?s1 = "store_child self rs sx sy ang len k i c s"
    let ?c1 = "place_calls self rs c ts
                (fst (child_pos self sx sy ang len k i)) (snd (child_pos self sx sy ang len k i))
                (ang + child_delta self k i) (next_length self rs len (draws s)) (dep + 1) ?s1"
    let ?s2 = "place_nodes_recursively self rs c ts
                (fst (child_pos self sx sy ang len k i)) (snd (child_pos self sx sy ang len k i))
                (ang + child_delta self k i) (next_length self rs len (draws s)) (dep + 1) ?s1"
    let ?c2 = "place_children_calls self rs ts sx sy ang len dep k rest ?s2"
    have eq: "place_children_calls self rs ts sx sy ang len dep k ((i, c) # rest) s = ?c1 @ ?c2"
      using False by (simp add: place_children_calls.simps)
    have "(fst x \<in> snd ` set ((i, c) # rest) \<and> snd (snd x) = dep + 1
            \<and> (\<exists>j. fst (snd x) = next_length self rs len j))
          \<or> made_from self rs ts (?c1 @ ?c2) x" if "x \<in> set (?c1 @ ?c2)" for x
    proof -
      from that consider (a) "x \<in> set ?c1" | (b) "x \<in> set ?c2" by auto
      then show ?thesis
      proof cases
        case a
        with cons(2) [OF False] have "x = (c, next_length self rs len (draws s), dep + 1)
            \<or> made_from self rs ts ?c1 x" by blast
        then show ?thesis
        proof
          assume "x = (c, next_length self rs len (draws s), dep + 1)"
          then show ?thesis by auto
        next
          assume "made_from self rs ts ?c1 x"
          then have "made_from self rs ts (?c1 @ ?c2) x" by (rule made_from_mono) auto
          then show ?thesis ..
        qed
      next
        case b
        with cons(3) [OF False] have "(fst x \<in> snd ` set rest \<and> snd (snd x) = dep + 1
            \<and> (\<exists>j. fst (snd x) = next_length self rs len j))
            \<or> made_from self rs ts ?c2 x" by blast
        then show ?thesis
        proof
          assume "fst x \<in> snd ` set rest \<and> snd (snd x) = dep + 1
            \<and> (\<exists>j. fst (snd x) = next_length self rs len j)"
          then show ?thesis by auto
        next
          assume "made_from self rs ts ?c2 x"
          then have "made_from self rs ts (?c1 @ ?c2) x" by (rule made_from_mono) auto
          then show ?thesis ..
        qed
      qed
    qed
    then show ?thesis unfolding eq by blast
  qed
qed

lemma layout_calls_eq:
  assumes "nodes \<noteq> []" and "find_root_nodes set_order nodes links = Inr (root_node # rest)"
  shows "layout_calls (TreeLayoutAlgorithm ba bf mbl md) set_order rs nodes links root_x root_y n =
      place_calls (TreeLayoutAlgorithm ba bf mbl md) rs root_node
         (build_tree_structure root_node nodes links) root_x root_y (- pi / 2)
         (real_of_int (fst (select_spec (int (length nodes))))) 1
         \<lparr> positioned_nodes = {root_node}, node_positions = [root_node \<mapsto> (root_x, root_y)],
           draws = n \<rparr>"
proof -
  have "calculate_dynamic_parameters (TreeLayoutAlgorithm ba bf mbl md) (int (length nodes))
      = Inr (select_spec (int (length nodes)))"
    by (simp add: calculate_dynamic_parameters_def TreeLayoutAlgorithm_def select_spec_def)
  then show ?thesis
    using assms by (simp add: layout_calls_def Let_def case_prod_beta)
qed

lemma reachable_from_trans:
  "y \<in> reachable_from ts x \<Longrightarrow> z \<in> reachable_from ts y \<Longrightarrow> z \<in> reachable_from ts x"
  by (auto simp: reachable_from_def)

lemma cutoff_covers:
  fixes md :: int and mbl :: real
  assumes root: "root_node \<in> D" and nodes: "fst ` set C = D"
    and closed: "\<forall>p l d. (p, l, d) \<in> set C \<longrightarrow> d < md \<and> mbl \<le> l \<longrightarrow> set (kids_of ts p) \<subseteq> D"
  shows "\<forall>x \<in> reachable_from ts root_node - D.
           \<exists>p l d. (p, l, d) \<in> set C \<and> (md \<le> d \<or> l < mbl) \<and> x \<in> reachable_from ts p"
proof
  fix x assume x: "x \<in> reachable_from ts root_node - D"
  then have "(root_node, x) \<in> (child_edges ts)\<^sup>*" by (simp add: reachable_from_def)
  then have "x \<in> D \<or> (\<exists>p l d. (p, l, d) \<in> set C \<and> (md \<le> d \<or> l < mbl) \<and> x \<in> reachable_from ts p)"
  proof (induction rule: rtrancl_induct)
    case base
    show ?case using root by simp
  next
    case (step y z)
    from step.hyps(2) have z: "z \<in> set (kids_of ts y)"
      by (auto simp: child_edges_def kids_of_def)
    from step.hyps(2) have zy: "z \<in> reachable_from ts y" by (auto simp: reachable_from_def)
    from step.IH show ?case
    proof
      assume "y \<in> D"
      with nodes obtain l d where c: "(y, l, d) \<in> set C" by force
      show ?thesis
      proof (cases "d < md \<and> mbl \<le> l")
        case True
        with closed c have "set (kids_of ts y) \<subseteq> D" by blast
        with z show ?thesis by auto
      next
        case False
        then have "md \<le> d \<or> l < mbl" by auto
        with c zy show ?thesis by blast
      qed
    next
      assume "\<exists>p l d. (p, l, d) \<in> set C \<and> (md \<le> d \<or> l < mbl) \<and> y \<in> reachable_from ts p"
      then obtain p l d where "(p, l, d) \<in> set C" "md \<le> d \<or> l < mbl" "y \<in> reachable_from ts p"
        by blast
      moreover from this(3) zy have "z \<in> reachable_from ts p" by (rule reachable_from_trans)
      ultimately show ?thesis by blast
    qed
  qed
  with x show "\<exists>p l d. (p, l, d) \<in> set C \<and> (md \<le> d \<or> l < mbl) \<and> x \<in> reachable_from ts p"
    by simp
qed

lemma layout_calls_facts:
  fixes nodes :: "('a \<times> 'd) list"
  assumes ne: "nodes \<noteq> []" and fr: "find_root_nodes set_order nodes links = Inr (root_node # rest)"
    and P: "layout_tree (TreeLayoutAlgorithm ba bf mbl md) set_order rs nodes links root_x root_y n = Inr P"
    and C: "C = layout_calls (TreeLayoutAlgorithm ba bf mbl md) set_order rs nodes links root_x root_y n"
    and ts: "ts = build_tree_structure root_node nodes links"
  shows "\<exists>tail. C = (root_node, real_of_int (fst (select_spec (int (length nodes)))), 1) # tail"
    and "distinct (map fst C)"
    and "fst ` set C = dom P"
    and "\<forall>x \<in> set C. x = (root_node, real_of_int (fst (select_spec (int (length nodes)))), 1)
            \<or> made_from (TreeLayoutAlgorithm ba bf mbl md) rs ts C x"
    and "\<forall>p l d. (p, l, d) \<in> set C \<longrightarrow> d < md \<and> mbl \<le> l \<longrightarrow> set (kids_of ts p) \<subseteq> dom P"
    and "\<forall>x \<in> reachable_from ts root_node - dom P.
           \<exists>p l d. (p, l, d) \<in> set C \<and> (md \<le> d \<or> l < mbl) \<and> x \<in> reachable_from ts p"
proof -
  let ?self = "TreeLayoutAlgorithm ba bf mbl md"
  let ?B = "real_of_int (fst (select_spec (int (length nodes))))"
  let ?init = "\<lparr> positioned_nodes = {root_node}, node_positions = [root_node \<mapsto> (root_x, root_y)],
           draws = n \<rparr>"
  let ?fin = "place_nodes_recursively ?self rs root_node ts root_x root_y (- pi / 2) ?B 1 ?init"
  have Ceq: "C = place_calls ?self rs root_node ts root_x root_y (- pi / 2) ?B 1 ?init"
    unfolding C ts by (rule layout_calls_eq [OF ne fr])
  have Peq: "P = node_positions ?fin"
    using P unfolding ts layout_tree_eq [OF ne fr] by simp
  have "consistent ?init" by (simp add: consistent_def)
  then have "consistent ?fin" by (rule place_consistent)
  then have dom: "dom P = positioned_nodes ?fin" by (simp add: consistent_def Peq)
  have "extends ?init ?fin" by (rule place_extends)
  then have root: "root_node \<in> positioned_nodes ?fin" by (simp add: extends_def)
  show "\<exists>tail. C = (root_node, ?B, 1) # tail"
    unfolding Ceq by (subst place_calls_eq) simp
  show "distinct (map fst C)"
    unfolding Ceq using place_calls_distinct(1) [of root_node ?init ?self rs ts root_x root_y "- pi / 2" ?B 1]
    by simp
  show nodes: "fst ` set C = dom P"
    unfolding Ceq dom place_calls_nodes(1) using root by auto
  show "\<forall>x \<in> set C. x = (root_node, ?B, 1) \<or> made_from ?self rs ts C x"
    unfolding Ceq by (rule place_calls_made_from(1))
  show closed: "\<forall>p l d. (p, l, d) \<in> set C \<longrightarrow> d < md \<and> mbl \<le> l \<longrightarrow> set (kids_of ts p) \<subseteq> dom P"
    unfolding Ceq dom
    using place_calls_closed(1) [of ?self rs root_node ts root_x root_y "- pi / 2" ?B 1 ?init]
    by (simp add: TreeLayoutAlgorithm_def)
  show "\<forall>x \<in> reachable_from ts root_node - dom P.
           \<exists>p l d. (p, l, d) \<in> set C \<and> (md \<le> d \<or> l < mbl) \<and> x \<in> reachable_from ts p"
    using root by (intro cutoff_covers [OF _ nodes closed]) (simp only: dom)
qed

lemmas place_eval = place_nodes_recursively.simps place_children.simps uniform_def Let_def
  TreeLayoutAlgorithm_def zero_draws_def default_layout_def

lemma chain_ts:
  "build_tree_structure 1 chain_nodes chain_links =
     [1 \<mapsto> [2], 2 \<mapsto> [3], 3 \<mapsto> [4], 4 \<mapsto> [5], 5 \<mapsto> [6], 6 \<mapsto> [7], 7 \<mapsto> [8], 8 \<mapsto> [9],
      9 \<mapsto> [10], 10 \<mapsto> []]"
  by (rule ext) (simp add: build_tree_structure_apply chain_nodes_def chain_links_def dict_keys_def
      edge_targets_def edge_def)

lemma chain_root: "find_root_nodes sorted_list_of_set chain_nodes chain_links = Inr [1]"
proof -
  have "set (dict_keys chain_nodes) - linked_to chain_links = {1}"
    by (auto simp: chain_nodes_def chain_links_def dict_keys_def linked_to_def edge_def)
  then show ?thesis by (simp add: find_root_nodes_def)
qed

lemma chain_reach: "10 \<in> reachable_from (build_tree_structure 1 chain_nodes chain_links) 1"
proof -
  let ?E = "child_edges (build_tree_structure 1 chain_nodes chain_links)"
  have "(1, 2) \<in> ?E" "(2, 3) \<in> ?E" "(3, 4) \<in> ?E" "(4, 5) \<in> ?E" "(5, 6) \<in> ?E" "(6, 7) \<in> ?E" "(7, 8) \<in> ?E" "(8, 9) \<in> ?E" "(9, 10) \<in> ?E"
    by (simp_all add: child_edges_def chain_ts)
  then have "(1, 10) \<in> ?E\<^sup>*"
    by (meson rtrancl.rtrancl_into_rtrancl rtrancl.rtrancl_refl)
  then show ?thesis by (simp add: reachable_from_def)
qed

lemma chain_layout_dom:
  "map_sum id dom (layout_tree default_layout sorted_list_of_set zero_draws chain_nodes chain_links 600 650 0)
     = Inr {1, 2, 3, 4, 5, 6, 7}"
proof -
  have "calculate_dynamic_parameters default_layout (int (length chain_nodes)) = Inr (100, 60)"
    by (simp add: calculate_dynamic_parameters_def default_layout_def TreeLayoutAlgorithm_def chain_nodes_def)
  moreover have "chain_nodes \<noteq> []" by (simp add: chain_nodes_def)
  ultimately show ?thesis
    by (simp add: layout_tree_def chain_root chain_ts) (auto simp add: place_eval)
qed

lemma tri_ts:
  "build_tree_structure 1 tri_nodes tri_links = [1 \<mapsto> [2, 3], 2 \<mapsto> [], 3 \<mapsto> []]"
  by (rule ext) (simp add: build_tree_structure_apply tri_nodes_def tri_links_def dict_keys_def
      edge_targets_def edge_def)

lemma tri_root: "find_root_nodes sorted_list_of_set tri_nodes tri_links = Inr [1]"
proof -
  have "set (dict_keys tri_nodes) - linked_to tri_links = {1}"
    by (auto simp: tri_nodes_def tri_links_def dict_keys_def linked_to_def edge_def)
  then show ?thesis by (simp add: find_root_nodes_def)
qed

section \<open>Scale selection: the bands\<close>

text \<open>
  Claim C9. \<^verbatim>\<open>calculate_dynamic_parameters\<close> of an algorithm object built by the
  constructor returns, for every integer node count, the value of the first closed band
  that contains it, in the order [0,10], [11,30], [31,60], [61,oo); it always returns a
  value (never the \<^verbatim>\<open>KeyError\<close> branch), and every count in no band, in particular
  every negative count, gets the values of the top band, (180, 120).
\<close>

theorem C9_calculate_dynamic_parameters_bands:
  "calculate_dynamic_parameters (TreeLayoutAlgorithm ba bf mbl md) node_count
     = Inr (select_spec node_count)
   \<and> (node_count < 0 \<longrightarrow>
        calculate_dynamic_parameters (TreeLayoutAlgorithm ba bf mbl md) node_count = Inr (180, 120))"
  by (simp add: calculate_dynamic_parameters_def TreeLayoutAlgorithm_def select_spec_def)

theorem C9_calculate_dynamic_parameters_bands_witness:
  "(-3 :: int) < 0
   \<and> calculate_dynamic_parameters (TreeLayoutAlgorithm (35 * pi / 180) (85 / 100) 30 10000) (-3)
       = Inr (180, 120)
   \<and> calculate_dynamic_parameters (TreeLayoutAlgorithm (35 * pi / 180) (85 / 100) 30 10000) 10
       = Inr (100, 60)
   \<and> calculate_dynamic_parameters (TreeLayoutAlgorithm (35 * pi / 180) (85 / 100) 30 10000) 11
       = Inr (120, 80)"
  using C9_calculate_dynamic_parameters_bands [of "35 * pi / 180" "85 / 100" 30 10000 "-3"]
    C9_calculate_dynamic_parameters_bands [of "35 * pi / 180" "85 / 100" 30 10000 10]
    C9_calculate_dynamic_parameters_bands [of "35 * pi / 180" "85 / 100" 30 10000 11]
  by (simp add: select_spec_def)

section \<open>The geometry accessor\<close>

text \<open>
  Claim C2, as stated: \<^verbatim>\<open>get_end\<close> returns the endpoint computed from the target
  length whatever the current length is. It fails for a branch that has just been
  constructed with target length 100: its current length is 0 and \<^verbatim>\<open>get_end\<close>
  returns the start point.
\<close>

theorem C2_get_end_target_length_counterexample:
  "get_end (Branch_init (0, 0) 0 100 1) = (0, 0)
   \<and> get_end (Branch_init (0, 0) 0 100 1)
       \<noteq> (fst (start (Branch_init (0, 0) 0 100 1))
              + target_length (Branch_init (0, 0) 0 100 1) * cos (angle (Branch_init (0, 0) 0 100 1)),
            snd (start (Branch_init (0, 0) 0 100 1))
              + target_length (Branch_init (0, 0) 0 100 1) * sin (angle (Branch_init (0, 0) 0 100 1)))"
  by (simp add: get_end_def Branch_init_def)

text \<open>
  Claim C2, amended: \<^verbatim>\<open>get_end\<close> returns start + length * (cos angle, sin angle)
  with the current length of the branch; this is the fully grown endpoint whenever the
  current length equals the target length.
\<close>

theorem C2_get_end_current_length:
  "get_end self = (fst (start self) + length_b self * cos (angle self),
                   snd (start self) + length_b self * sin (angle self))
   \<and> (length_b self = target_length self \<longrightarrow>
        get_end self = (fst (start self) + target_length self * cos (angle self),
                        snd (start self) + target_length self * sin (angle self)))"
  by (simp add: get_end_def)

theorem C2_get_end_current_length_witness:
  "length_b (Branch (1, 2) 0 50 50 1 False [] False) = target_length (Branch (1, 2) 0 50 50 1 False [] False)
   \<and> get_end (Branch (1, 2) 0 50 50 1 False [] False) = (51, 2)
   \<and> get_end (Branch (1, 2) 0 20 50 1 False [] False) = (21, 2)"
  using C2_get_end_current_length [of "Branch (1, 2) 0 50 50 1 False [] False"]
    C2_get_end_current_length [of "Branch (1, 2) 0 20 50 1 False [] False"]
  by simp

section \<open>Growth simulation: the claims\<close>

text \<open>
  Claim C10. A branch is constructed with a non-negative target length and then receives
  any sequence of calls (\<^verbatim>\<open>update\<close> with any tick flags, and also
  \<^verbatim>\<open>grow_branch_instantly\<close>), with any random draws. Its target length is the one it
  was constructed with and its current length stays between 0 and that target: growth is
  clamped and never overshoots. The same bounds hold for every branch of its subtree.
  (\<^verbatim>\<open>GROWTH_SPEED\<close> is the constant 1 of the source.)
\<close>

theorem C10_length_within_target:
  assumes "0 \<le> len"
    and "run rs calls (Branch_init st a len d) n = (b, m)"
  shows "target_length b = len \<and> 0 \<le> length_b b \<and> length_b b \<le> len
    \<and> (\<forall>c \<in> subtree b. 0 \<le> length_b c \<and> length_b c \<le> target_length c)"
proof -
  have b: "b = fst (run rs calls (Branch_init st a len d) n)" using assms(2) by simp
  have "len_ok (Branch_init st a len d)" using assms(1) by (rule len_ok_fresh)
  then have ok: "len_ok b" unfolding b by (rule run_inv)
  have t: "target_length b = len" unfolding b by (simp add: run_inv Branch_init_def)
  from ok t show ?thesis
    using len_ok_subtree [OF ok] len_ok_sel [of b] by auto
qed

text \<open>
  Claim C10 at a concrete run: one growth tick, then instant growth, of a branch of target
  length 24 with all draws 0; the result has two children of target length 96/5.
\<close>

theorem C10_length_within_target_witness:
  "(0 :: real) \<le> 24
   \<and> run zero_draws [Update True, InstantGrow] (Branch_init (0, 0) 0 24 1) 0
       = (Branch (0, 0) 0 24 24 1 True
            [Branch (24, 0) 0 (96 / 5) (96 / 5) 2 True [] False,
             Branch (24, 0) 0 (96 / 5) (96 / 5) 2 True [] False] False, 13)
   \<and> target_length (fst (run zero_draws [Update True, InstantGrow] (Branch_init (0, 0) 0 24 1) 0)) = 24
   \<and> 0 \<le> length_b (fst (run zero_draws [Update True, InstantGrow] (Branch_init (0, 0) 0 24 1) 0))
   \<and> length_b (fst (run zero_draws [Update True, InstantGrow] (Branch_init (0, 0) 0 24 1) 0)) \<le> 24"
proof -
  have r: "run zero_draws [Update True, InstantGrow] (Branch_init (0, 0) 0 24 1) 0
       = (Branch (0, 0) 0 24 24 1 True
            [Branch (24, 0) 0 (96 / 5) (96 / 5) 2 True [] False,
             Branch (24, 0) 0 (96 / 5) (96 / 5) 2 True [] False] False, 13)"
    by (simp add: sim_eval numeral_2_eq_2)
  from C10_length_within_target [OF _ r] show ?thesis
    using r by simp
qed

text \<open>
  Claim C8. In every state a branch reaches from its constructor by any sequence of
  calls, every branch \<open>c\<close> of its tree whose \<^verbatim>\<open>static\<close> flag is set is finished, has
  static children only, and its whole subtree is static. Static is terminal: an
  \<^verbatim>\<open>update\<close> call on a static branch, with any tick flag and any random source,
  returns it unchanged (the branch value includes its subtree), and after any sequence
  of \<^verbatim>\<open>update\<close> calls on the tree the static branch stands unchanged at the same place,
  so the flag never reverts.
\<close>

theorem C8_static_terminal:
  assumes "run rs calls (Branch_init st a len d) n = (b, m)"
  shows "(\<forall>c \<in> subtree b. static c \<longrightarrow>
            finished c \<and> (\<forall>c' \<in> set (children c). static c') \<and> (\<forall>c' \<in> subtree c. static c'))
    \<and> (\<forall>p c. descend p b = Some c \<and> static c \<longrightarrow>
          (\<forall>rs' g k. update rs' g c k = (c, k)) \<and>
          (\<forall>rs' gs k. descend p (fst (updates rs' gs b k)) = Some c))"
proof -
  have b: "b = fst (run rs calls (Branch_init st a len d) n)" using assms by simp
  have ok: "static_ok b" unfolding b by (intro run_inv static_ok_fresh)
  show ?thesis
  proof (intro conjI ballI allI impI)
    fix c assume c: "c \<in> subtree b" "static c"
    show "finished c" using static_ok_subtree [OF ok c] by simp
    show "\<And>c'. c' \<in> set (children c) \<Longrightarrow> static c'" using static_ok_subtree [OF ok c] by simp
    show "\<And>c'. c' \<in> subtree c \<Longrightarrow> static c'"
      using static_subtree [OF static_ok_sub [OF ok c(1)] c(2)] by simp
  next
    fix p c rs' g k assume "descend p b = Some c \<and> static c"
    then show "update rs' g c k = (c, k)" by (simp add: update_static)
  next
    fix p c rs' gs k assume "descend p b = Some c \<and> static c"
    then show "descend p (fst (updates rs' gs b k)) = Some c"
      by (simp add: updates_descend_static)
  qed
qed

text \<open>
  Forty-five growth ticks of a branch of target length 24 with all draws 0: the root is
  finished and has two children that are finished, without children, and static; the root
  itself becomes static with the next tick.
\<close>

lemma run45:
  "run zero_draws (replicate 45 (Update True)) (Branch_init (0, 0) 0 24 1) 0
     = (Branch (0, 0) 0 24 24 1 True [grown_twig, grown_twig] False, 13)"
  by (simp add: sim_eval numeral_eq_Suc grown_twig_def BRANCH_ANGLE_def)

text \<open>
  Claim C8 at that state: the first child is static and finished, \<^verbatim>\<open>update\<close> leaves it
  as it is, and it is still the first child after three more calls on the root.
\<close>

theorem C8_static_terminal_witness:
  "run zero_draws (replicate 45 (Update True)) (Branch_init (0, 0) 0 24 1) 0
     = (Branch (0, 0) 0 24 24 1 True [grown_twig, grown_twig] False, 13)
   \<and> descend [0] (Branch (0, 0) 0 24 24 1 True [grown_twig, grown_twig] False) = Some grown_twig
   \<and> static grown_twig \<and> finished grown_twig
   \<and> update zero_draws True grown_twig 13 = (grown_twig, 13)
   \<and> descend [0] (fst (updates zero_draws [True, False, True]
          (Branch (0, 0) 0 24 24 1 True [grown_twig, grown_twig] False) 13)) = Some grown_twig
   \<and> static (fst (updates zero_draws [True]
          (Branch (0, 0) 0 24 24 1 True [grown_twig, grown_twig] False) 13))"
proof -
  let ?b = "Branch (0, 0) 0 24 24 1 True [grown_twig, grown_twig] False"
  have d: "descend [0] ?b = Some grown_twig" by simp
  have s: "static grown_twig" by (simp add: grown_twig_def)
  have sub: "grown_twig \<in> subtree ?b" by (simp add: self_in_subtree)
  note c8 = C8_static_terminal [OF run45]
  from c8 sub s have "finished grown_twig" by blast
  moreover from c8 d s have "update zero_draws True grown_twig 13 = (grown_twig, 13)" by blast
  moreover from c8 d s have "descend [0] (fst (updates zero_draws [True, False, True] ?b 13)) = Some grown_twig"
    by blast
  moreover have "static (fst (updates zero_draws [True] ?b 13))"
    by (simp add: sim_eval grown_twig_def)
  ultimately show ?thesis using run45 d s by simp
qed

section \<open>Leaves at the length or depth limit\<close>

text \<open>
  In \<^verbatim>\<open>Branch.grow\<close> the flag \<^verbatim>\<open>finished\<close> is set only inside the guard that also
  allows spawning. A branch that has reached its target and is at the limit
  (target length at most \<^verbatim>\<open>MIN_BRANCH_LENGTH\<close>, or depth at least \<^verbatim>\<open>MAX_DEPTH\<close>) is
  left as it is by \<^verbatim>\<open>grow\<close>: it is never finished, so it never becomes static.
\<close>

lemma grow_at_limit_unchanged:
  "\<not> len < tlen \<Longrightarrow> \<not> fin \<Longrightarrow> \<not> stc \<Longrightarrow>
   tlen \<le> MIN_BRANCH_LENGTH \<or> d \<ge> MAX_DEPTH \<Longrightarrow>
   grow rs (Branch st a len tlen d fin cs stc) n = (Branch st a len tlen d fin cs stc, n)"
  by (auto simp: grow_cases)

text \<open>
  Claim C3 at two concrete branches. The first has target length 2 (below
  \<^verbatim>\<open>MIN_BRANCH_LENGTH\<close>) and depth 1: two growth ticks bring the length to the target;
  the third growth tick, and a fourth, leave \<^verbatim>\<open>finished\<close> and \<^verbatim>\<open>static\<close> false. The
  second has target length 20 and depth \<^verbatim>\<open>MAX_DEPTH\<close> = 14: twenty growth ticks bring the
  length to the target, and two more leave \<^verbatim>\<open>finished\<close> and \<^verbatim>\<open>static\<close> false.
\<close>

theorem C3_leaf_at_limit_not_finished:
  "updates rs [True, True] (Branch_init (0, 0) 0 2 1) n = (Branch (0, 0) 0 2 2 1 False [] False, n)
   \<and> updates rs [True, True, True] (Branch_init (0, 0) 0 2 1) n = (Branch (0, 0) 0 2 2 1 False [] False, n)
   \<and> updates rs [True, True, True, True] (Branch_init (0, 0) 0 2 1) n = (Branch (0, 0) 0 2 2 1 False [] False, n)
   \<and> updates rs (replicate 20 True) (Branch_init (0, 0) 0 20 14) n = (Branch (0, 0) 0 20 20 14 False [] False, n)
   \<and> updates rs (replicate 22 True) (Branch_init (0, 0) 0 20 14) n = (Branch (0, 0) 0 20 20 14 False [] False, n)"
  by (simp add: sim_eval numeral_eq_Suc)

text \<open>
  What \<^verbatim>\<open>grow_branch_instantly\<close> returns for a new branch: in the whole tree the length
  equals the target, and a branch is finished exactly when it is below the depth limit and
  above the length limit.
\<close>

lemma grow_branch_instantly_new:
  "instant_ok (fst (grow_branch_instantly rs (Branch_init st a len d) n))"
  by (rule instant_result) (simp_all add: Branch_init_def)

text \<open>
  Claim C7 at a concrete branch: \<^verbatim>\<open>grow_branch_instantly\<close> on a new branch whose target
  length is \<^verbatim>\<open>MIN_BRANCH_LENGTH\<close> returns it with length equal to the target and
  \<^verbatim>\<open>finished\<close> still false. The same happens to a child it creates with exactly that
  length: a parent of target length 45/2 and a length factor of 8/10 (every draw 0).
\<close>

theorem C7_instant_leaf_at_limit_not_finished:
  "grow_branch_instantly rs (Branch_init (0, 0) 0 18 1) n = (Branch (0, 0) 0 18 18 1 False [] False, n)
   \<and> fst (grow_branch_instantly zero_draws (Branch_init (0, 0) 0 (45 / 2) 1) 0)
       = Branch (0, 0) 0 (45 / 2) (45 / 2) 1 True
           [Branch (45 / 2, 0) 0 18 18 2 False [] False,
            Branch (45 / 2, 0) 0 18 18 2 False [] False] False"
  by (simp add: sim_eval numeral_2_eq_2)

section \<open>Tree layout: the claims\<close>

text \<open>
  Claim C4, as stated: a child is stored at most once. It fails when the edge list holds
  the pair (A, B) twice: \<^verbatim>\<open>build_tree_structure\<close> appends B to the children of A for
  each of the two edges.
\<close>

theorem C4_duplicate_edge_counterexample:
  "build_tree_structure ''A'' [(''A'', ()), (''B'', ())] [edge ''A'' ''B'', edge ''A'' ''B''] ''A''
     = Some [''B'', ''B'']
   \<and> \<not> distinct [''B'', ''B'']"
  by (simp add: build_tree_structure_def dict_keys_def add_link_def edge_def)

text \<open>
  Claim C4, amended: the child sequence of a known node \<open>p\<close> lists the targets of the
  edges that leave \<open>p\<close> and have both ends among the node ids, in edge order and one
  entry per edge; so a child \<open>c\<close> occurs as often as the pair (p, c) occurs in the edge
  list, and an unknown id has no entry.
\<close>

theorem C4_child_per_edge:
  "build_tree_structure root_node nodes links p =
     (if p \<in> set (dict_keys nodes)
      then Some (edge_targets (set (dict_keys nodes)) p links) else None)
   \<and> (p \<in> set (dict_keys nodes) \<and> c \<in> set (dict_keys nodes) \<longrightarrow>
        count_list (edge_targets (set (dict_keys nodes)) p links) c
          = length (filter (\<lambda>l. link_from l = Some p \<and> link_to l = Some c) links))"
  by (simp add: build_tree_structure_apply count_edge_targets)

text \<open>
  Claim C4, amended, at the edge list with the pair (A, B) twice: B is counted twice.
\<close>

theorem C4_child_per_edge_witness:
  "''A'' \<in> set (dict_keys [(''A'', ()), (''B'', ())]) \<and> ''B'' \<in> set (dict_keys [(''A'', ()), (''B'', ())])
   \<and> build_tree_structure ''A'' [(''A'', ()), (''B'', ())] [edge ''A'' ''B'', edge ''A'' ''B''] ''A''
       = Some (edge_targets (set (dict_keys [(''A'', ()), (''B'', ())])) ''A'' [edge ''A'' ''B'', edge ''A'' ''B''])
   \<and> count_list (edge_targets (set (dict_keys [(''A'', ()), (''B'', ())])) ''A''
         [edge ''A'' ''B'', edge ''A'' ''B'']) ''B'' = 2"
  using C4_child_per_edge [of "''A''" "[(''A'', ()), (''B'', ())]" "[edge ''A'' ''B'', edge ''A'' ''B'']" "''A''" "''B''"]
  by (simp add: dict_keys_def edge_def)

text \<open>
  Claim C5, as stated: with several nodes without incoming edge the root is the first of
  them in input node order. \<^verbatim>\<open>find_root_nodes\<close> lists a Python set, whose order is not
  the input order. For the nodes 1, 0 (inserted in this order) and no links, a set of small
  integers is listed in ascending order (as CPython does): the root list is [0, 1] and the
  layout root is 0, while the first node in input order without incoming edge is 1.
\<close>

theorem C5_input_order_counterexample:
  "find_root_nodes sorted_list_of_set [(1 :: int, ()), (0, ())] [] = Inr [0, 1]
   \<and> filter (\<lambda>k. k \<notin> linked_to []) (dict_keys [(1 :: int, ()), (0, ())]) = [1, 0]
   \<and> map_sum id (\<lambda>P. (P 0, P 1))
        (layout_tree default_layout sorted_list_of_set zero_draws [(1 :: int, ()), (0, ())] [] 600 650 0)
       = Inr (Some (600, 650), None)"
  by (simp add: find_root_nodes_def dict_keys_def linked_to_def layout_tree_def
      calculate_dynamic_parameters_def build_tree_structure_def place_eval)

text \<open>
  Claim C5, amended. For a non-empty node dict and any listing order of the set of nodes
  without incoming edge (a list with exactly the elements of that set),
  \<^verbatim>\<open>find_root_nodes\<close> returns a non-empty list whose first element is the layout root,
  the node \<^verbatim>\<open>layout_tree\<close> places at the origin. When some node has no incoming edge, the
  root is the first element of that listing: a node without incoming edge, not necessarily
  the first in input order. When every node has an incoming edge, the root is the
  first-inserted node.
\<close>

theorem C5_root_selection:
  assumes "nodes \<noteq> []"
    and "set (set_order (set (dict_keys nodes) - linked_to links)) = set (dict_keys nodes) - linked_to links"
  shows "\<exists>root_node rest. find_root_nodes set_order nodes links = Inr (root_node # rest)
    \<and> (set (dict_keys nodes) - linked_to links \<noteq> {} \<longrightarrow>
         root_node = hd (set_order (set (dict_keys nodes) - linked_to links))
         \<and> root_node \<in> set (dict_keys nodes) \<and> root_node \<notin> linked_to links)
    \<and> (set (dict_keys nodes) - linked_to links = {} \<longrightarrow> root_node = hd (dict_keys nodes) \<and> rest = [])
    \<and> (\<exists>P. layout_tree (TreeLayoutAlgorithm ba bf mbl md) set_order rs nodes links root_x root_y n = Inr P
           \<and> P root_node = Some (root_x, root_y))"
proof -
  let ?S = "set (dict_keys nodes) - linked_to links"
  obtain root_node rest where fr: "find_root_nodes set_order nodes links = Inr (root_node # rest)"
    using find_root_nodes_nonempty [OF assms(1)] by blast
  have a: "root_node = hd (set_order ?S) \<and> root_node \<in> set (dict_keys nodes) \<and> root_node \<notin> linked_to links"
    if "?S \<noteq> {}"
  proof -
    from that assms(2) have ne: "set_order ?S \<noteq> []" by auto
    with fr have "root_node = hd (set_order ?S)" by (simp add: find_root_nodes_def)
    moreover have "hd (set_order ?S) \<in> ?S" using ne assms(2) hd_in_set by blast
    ultimately show ?thesis by simp
  qed
  have b: "root_node = hd (dict_keys nodes) \<and> rest = []" if "?S = {}"
  proof -
    from assms(2) have "set (set_order ?S) = {}" unfolding that .
    then have "set_order ?S = []" by simp
    with fr assms(1) show ?thesis
      by (cases nodes) (simp_all add: find_root_nodes_def dict_keys_def)
  qed
  let ?init = "\<lparr> positioned_nodes = {root_node}, node_positions = [root_node \<mapsto> (root_x, root_y)],
           draws = n \<rparr>"
  let ?final = "place_nodes_recursively (TreeLayoutAlgorithm ba bf mbl md) rs root_node
         (build_tree_structure root_node nodes links) root_x root_y (- pi / 2)
         (real_of_int (fst (select_spec (int (length nodes))))) 1 ?init"
  have "extends ?init ?final" by (rule place_extends)
  then have "node_positions ?final root_node = Some (root_x, root_y)" by (simp add: extends_def)
  with layout_tree_eq [OF assms(1) fr, of ba bf mbl md rs root_x root_y n] a b fr
  show ?thesis by blast
qed

text \<open>
  Claim C5, amended, at the nodes 1, 0 without links and the ascending listing: the root
  list is [0, 1] and node 0 is placed at the origin.
\<close>

theorem C5_root_selection_witness:
  "[(1 :: int, ()), (0, ())] \<noteq> []
   \<and> set (sorted_list_of_set (set (dict_keys [(1 :: int, ()), (0, ())]) - linked_to []))
       = set (dict_keys [(1 :: int, ()), (0, ())]) - linked_to []
   \<and> find_root_nodes sorted_list_of_set [(1 :: int, ()), (0, ())] [] = Inr [0, 1]
   \<and> map_sum id (\<lambda>P. P 0)
        (layout_tree default_layout sorted_list_of_set zero_draws [(1 :: int, ()), (0, ())] [] 600 650 0)
       = Inr (Some (600, 650))"
proof -
  have ne: "[(1 :: int, ()), (0, ())] \<noteq> []" by simp
  have ord: "set (sorted_list_of_set (set (dict_keys [(1 :: int, ()), (0, ())]) - linked_to []))
       = set (dict_keys [(1 :: int, ()), (0, ())]) - linked_to []"
    by (simp add: dict_keys_def)
  have fr: "find_root_nodes sorted_list_of_set [(1 :: int, ()), (0, ())] [] = Inr [0, 1]"
    by (simp add: find_root_nodes_def dict_keys_def linked_to_def)
  from C5_root_selection [where set_order = sorted_list_of_set and nodes = "[(1 :: int, ()), (0, ())]"
      and links = "[]" and ba = "35 * pi / 180" and bf = "85 / 100" and mbl = 30 and md = 10000
      and rs = zero_draws and root_x = 600 and root_y = 650 and n = 0, OF ne ord]
  obtain root_node rest P where
    "find_root_nodes sorted_list_of_set [(1 :: int, ()), (0, ())] [] = Inr (root_node # rest)"
    and "layout_tree default_layout sorted_list_of_set zero_draws [(1 :: int, ()), (0, ())] [] 600 650 0 = Inr P"
    and "P root_node = Some (600, 650)"
    unfolding default_layout_def by blast
  with fr ne ord show ?thesis by simp
qed

text \<open>
  Claim C6, as stated: the child at index \<open>i\<close> of a node with \<open>k > 1\<close> children lies at
  the offset \<open>(i / (k - 1)) * (2 * branch_angle) - branch_angle\<close>. It fails when the edge
  list holds the pair (1, 2) twice: the child list of node 1 is [2, 2], so \<open>k = 2\<close>; node 2
  is placed at index 0 with the offset \<open>- branch_angle\<close> and skipped at index 1, whose
  offset would be \<open>+ branch_angle\<close>. The only child does not lie along the parent's angle
  and the child angles are not symmetric about it.
\<close>

theorem C6_duplicate_edge_counterexample:
  "build_tree_structure 1 [(1 :: int, ()), (2, ())] [edge 1 2, edge 1 2] 1 = Some [2, 2]
   \<and> map_sum id (\<lambda>P. P 2)
        (layout_tree default_layout sorted_list_of_set zero_draws [(1 :: int, ()), (2, ())]
           [edge 1 2, edge 1 2] 600 650 0)
       = Inr (Some (600 + 100 * cos (- pi / 2 - 35 * pi / 180), 650 + 100 * sin (- pi / 2 - 35 * pi / 180)))
   \<and> delta_spec (branch_angle default_layout) 2 1 = 35 * pi / 180
   \<and> 600 + 100 * cos (- pi / 2 - 35 * pi / 180) \<noteq> 600 + 100 * cos (- pi / 2 + 35 * pi / 180)"
proof -
  let ?nodes = "[(1 :: int, ()), (2, ())]"
  let ?links = "[edge (1 :: int) 2, edge 1 2]"
  have ts: "build_tree_structure 1 ?nodes ?links = [1 \<mapsto> [2, 2], 2 \<mapsto> []]"
    by (rule ext) (simp add: build_tree_structure_apply dict_keys_def edge_targets_def edge_def)
  have "set (dict_keys ?nodes) - linked_to ?links = {1}"
    by (auto simp: dict_keys_def linked_to_def edge_def)
  then have root: "find_root_nodes sorted_list_of_set ?nodes ?links = Inr [1]"
    by (simp add: find_root_nodes_def)
  have cdp: "calculate_dynamic_parameters default_layout (int (length ?nodes)) = Inr (100, 60)"
    by (simp add: calculate_dynamic_parameters_def default_layout_def TreeLayoutAlgorithm_def)
  have a: "map_sum id (\<lambda>P. P 2) (layout_tree default_layout sorted_list_of_set zero_draws ?nodes ?links 600 650 0)
       = Inr (Some (600 + 100 * cos (- pi / 2 - 35 * pi / 180), 650 + 100 * sin (- pi / 2 - 35 * pi / 180)))"
    using cdp by (simp add: layout_tree_def root ts) (simp add: place_eval)
  have b: "delta_spec (branch_angle default_layout) 2 1 = 35 * pi / 180"
    by (simp add: delta_spec_def default_layout_def TreeLayoutAlgorithm_def)
  have "cos (- pi / 2 - 35 * pi / 180) = - sin (35 * pi / 180)"
    using cos_diff [of "- pi / 2" "35 * pi / 180"] by simp
  moreover have "cos (- pi / 2 + 35 * pi / 180) = sin (35 * pi / 180)"
    using cos_add [of "- pi / 2" "35 * pi / 180"] by simp
  ultimately have c: "600 + 100 * cos (- pi / 2 - 35 * pi / 180) \<noteq> 600 + 100 * cos (- pi / 2 + 35 * pi / 180)"
    using sin_35_pos by simp
  from ts a b c show ?thesis by simp
qed

text \<open>
  Claim C6, amended. A node \<^verbatim>\<open>node_id\<close> has the child list \<open>cs\<close> (one entry per edge,
  so possibly with repetitions), \<open>k = length cs\<close>, and \<open>i\<close> is an index of it.

  \<^item> A call that passes the cut-off tests (depth below \<^verbatim>\<open>max_depth\<close>, length at least
    \<^verbatim>\<open>min_branch_length\<close>) goes through the children in order. If the child at index
    \<open>i\<close> is not positioned when its turn comes (after the children before it and their
    subtrees are laid out), it is placed at distance \<open>len\<close> from the parent position at
    the angle \<open>ang + delta i\<close>. If it is positioned by then, it is skipped and keeps the
    position it has. It is not positioned at its turn, and so placed at \<open>ang + delta i\<close>,
    whenever it is not positioned at the call and not reachable from an earlier sibling.
  \<^item> A call that fails a cut-off test places no child: the state is returned unchanged.
  \<^item> For \<open>k = 1\<close> the offset is 0: the child, if not positioned at the call (which
    passes the cut-off tests), lies along the parent's angle at distance \<open>len\<close>.
  \<^item> For \<open>k > 1\<close> the offset is \<open>(i / (k - 1)) * (2 * branch_angle) - branch_angle\<close>;
    the offsets run from \<open>- branch_angle\<close> to \<open>branch_angle\<close>, a span of
    \<open>2 * branch_angle\<close>; the offset of index \<open>k - 1 - i\<close> is the negative of that of
    \<open>i\<close>, and the multiset of the angles \<open>ang + delta j\<close>, \<open>j < k\<close>, is unchanged by
    reflection about the parent's angle.
\<close>

theorem C6_child_angles:
  assumes "tree_structure node_id = Some cs" and "i < length cs"
  shows
    "(dep < max_depth self \<and> min_branch_length self \<le> len \<longrightarrow>
        (cs ! i \<notin> positioned_nodes
            (place_children self rs tree_structure sx sy ang len dep (length cs) (enumerate 0 (take i cs)) s) \<longrightarrow>
           node_positions (place_nodes_recursively self rs node_id tree_structure sx sy ang len dep s) (cs ! i)
             = Some (sx + len * cos (ang + delta_spec (branch_angle self) (length cs) i),
                     sy + len * sin (ang + delta_spec (branch_angle self) (length cs) i)))
        \<and> (cs ! i \<in> positioned_nodes
            (place_children self rs tree_structure sx sy ang len dep (length cs) (enumerate 0 (take i cs)) s) \<longrightarrow>
           node_positions (place_nodes_recursively self rs node_id tree_structure sx sy ang len dep s) (cs ! i)
             = node_positions
                 (place_children self rs tree_structure sx sy ang len dep (length cs) (enumerate 0 (take i cs)) s)
                 (cs ! i))
        \<and> (cs ! i \<notin> positioned_nodes s
             \<and> (\<forall>j<i. cs ! i \<notin> reachable_from tree_structure (cs ! j)) \<longrightarrow>
           cs ! i \<notin> positioned_nodes
             (place_children self rs tree_structure sx sy ang len dep (length cs) (enumerate 0 (take i cs)) s)
           \<and> node_positions (place_nodes_recursively self rs node_id tree_structure sx sy ang len dep s) (cs ! i)
             = Some (sx + len * cos (ang + delta_spec (branch_angle self) (length cs) i),
                     sy + len * sin (ang + delta_spec (branch_angle self) (length cs) i))))
    \<and> (max_depth self \<le> dep \<or> len < min_branch_length self \<longrightarrow>
          place_nodes_recursively self rs node_id tree_structure sx sy ang len dep s = s)
    \<and> (length cs = 1 \<longrightarrow>
          delta_spec (branch_angle self) (length cs) i = 0
          \<and> (dep < max_depth self \<and> min_branch_length self \<le> len \<and> cs ! i \<notin> positioned_nodes s \<longrightarrow>
               node_positions (place_nodes_recursively self rs node_id tree_structure sx sy ang len dep s) (cs ! i)
                 = Some (sx + len * cos ang, sy + len * sin ang)))
    \<and> (1 < length cs \<longrightarrow>
          delta_spec (branch_angle self) (length cs) i
            = (real i / real (length cs - 1)) * (2 * branch_angle self) - branch_angle self
          \<and> delta_spec (branch_angle self) (length cs) 0 = - branch_angle self
          \<and> delta_spec (branch_angle self) (length cs) (length cs - 1) = branch_angle self
          \<and> delta_spec (branch_angle self) (length cs) (length cs - 1 - i)
              = - delta_spec (branch_angle self) (length cs) i
          \<and> image_mset (\<lambda>a. 2 * ang - a)
                (mset (map (\<lambda>j. ang + delta_spec (branch_angle self) (length cs) j) [0..<length cs]))
              = mset (map (\<lambda>j. ang + delta_spec (branch_angle self) (length cs) j) [0..<length cs]))"
proof -
  let ?k = "length cs"
  let ?turn = "place_children self rs tree_structure sx sy ang len dep ?k (enumerate 0 (take i cs)) s"
  let ?fin = "place_nodes_recursively self rs node_id tree_structure sx sy ang len dep s"
  let ?at = "Some (sx + len * cos (ang + delta_spec (branch_angle self) ?k i),
                   sy + len * sin (ang + delta_spec (branch_angle self) ?k i))"
  have k: "0 < ?k" using assms(2) by auto
  note turn = place_nodes_recursively_turn [where tree_structure = tree_structure
      and node_id = node_id and self = self and rs = rs and sx = sx and sy = sy and ang = ang and s = s,
      OF assms]
  have placed: "node_positions ?fin (cs ! i) = ?at"
    if e: "dep < max_depth self" "min_branch_length self \<le> len"
      and f: "cs ! i \<notin> positioned_nodes ?turn"
    unfolding turn [OF e] place_children_position [OF f]
    using k by (simp add: child_pos_def child_delta_spec)
  have skipped: "node_positions ?fin (cs ! i) = node_positions ?turn (cs ! i)"
    if e: "dep < max_depth self" "min_branch_length self \<le> len"
      and f: "cs ! i \<in> positioned_nodes ?turn"
  proof -
    have "extends ?turn ?fin"
      unfolding turn [OF e] by (rule place_extends)
    with f show ?thesis by (simp add: extends_def)
  qed
  have fresh: "cs ! i \<notin> positioned_nodes ?turn"
    if "cs ! i \<notin> positioned_nodes s" "\<forall>j<i. cs ! i \<notin> reachable_from tree_structure (cs ! j)"
    using assms(2) that by (rule place_children_fresh_at_turn)
  have cut: "?fin = s" if "max_depth self \<le> dep \<or> len < min_branch_length self"
    using that by (auto simp add: place_nodes_recursively_eq)
  have one: "delta_spec (branch_angle self) ?k i = 0" if "?k = 1"
    using that by (simp add: delta_spec_def)
  have single: "node_positions ?fin (cs ! i) = Some (sx + len * cos ang, sy + len * sin ang)"
    if "?k = 1" and e: "dep < max_depth self" "min_branch_length self \<le> len"
      and f: "cs ! i \<notin> positioned_nodes s"
  proof -
    from \<open>?k = 1\<close> assms(2) have "i = 0" by simp
    then have "?turn = s" by (simp add: place_children_Nil)
    with f have "cs ! i \<notin> positioned_nodes ?turn" by simp
    from placed [OF e this] one [OF \<open>?k = 1\<close>] show ?thesis by simp
  qed
  have formula: "delta_spec (branch_angle self) ?k i
            = (real i / real (?k - 1)) * (2 * branch_angle self) - branch_angle self"
    if "1 < ?k"
    using that by (simp add: delta_spec_def)
  have many: "1 < ?k \<longrightarrow>
          delta_spec (branch_angle self) ?k i
            = (real i / real (?k - 1)) * (2 * branch_angle self) - branch_angle self
          \<and> delta_spec (branch_angle self) ?k 0 = - branch_angle self
          \<and> delta_spec (branch_angle self) ?k (?k - 1) = branch_angle self
          \<and> delta_spec (branch_angle self) ?k (?k - 1 - i)
              = - delta_spec (branch_angle self) ?k i
          \<and> image_mset (\<lambda>a. 2 * ang - a)
                (mset (map (\<lambda>j. ang + delta_spec (branch_angle self) ?k j) [0..<?k]))
              = mset (map (\<lambda>j. ang + delta_spec (branch_angle self) ?k j) [0..<?k])"
    using formula delta_spec_ends [of ?k "branch_angle self"]
      delta_spec_reflect [of ?k i "branch_angle self"] assms(2)
      delta_spec_symmetric_mset [of ?k ang "branch_angle self"]
    by simp
  show ?thesis
    apply (intro conjI impI)
    subgoal by (rule placed) simp_all
    subgoal by (rule skipped) simp_all
    subgoal by (rule fresh) simp_all
    subgoal by (rule placed, simp, simp, rule fresh) simp_all
    subgoal by (rule cut)
    subgoal by (rule one)
    subgoal by (rule single) simp_all
    subgoal using many by blast
    subgoal using many by blast
    subgoal using many by blast
    subgoal using many by blast
    subgoal using many by blast
    done
qed

text \<open>
  Claim C6, amended, with the parameters of \<^verbatim>\<open>example_usage\<close>: at the root of a tree
  with the children 2 and 3 the second child is placed at the offset plus 35 degrees; with
  the child list [2, 2] node 2 is positioned when the turn of index 1 comes and keeps the
  position of index 0, at minus 35 degrees; and a call with length 10, below
  \<^verbatim>\<open>min_branch_length\<close>, returns the state unchanged.
\<close>

theorem C6_child_angles_witness:
  "[(1 :: int) \<mapsto> [2, 3 :: int], 2 \<mapsto> [], 3 \<mapsto> []] 1 = Some [2, 3]
   \<and> (1 :: nat) < length [2, 3 :: int]
   \<and> 1 < max_depth default_layout \<and> min_branch_length default_layout \<le> 100
   \<and> [2, 3 :: int] ! 1 \<notin> positioned_nodes
          \<lparr> positioned_nodes = {1}, node_positions = [1 \<mapsto> (600, 650)], draws = 0 \<rparr>
   \<and> (3 :: int) \<notin> reachable_from [(1 :: int) \<mapsto> [2, 3 :: int], 2 \<mapsto> [], 3 \<mapsto> []] 2
   \<and> node_positions
        (place_nodes_recursively default_layout zero_draws 1 [(1 :: int) \<mapsto> [2, 3 :: int], 2 \<mapsto> [], 3 \<mapsto> []]
           600 650 (- pi / 2) 100 1
           \<lparr> positioned_nodes = {1}, node_positions = [1 \<mapsto> (600, 650)], draws = 0 \<rparr>) 3
       = Some (600 + 100 * cos (- pi / 2 + 35 * pi / 180), 650 + 100 * sin (- pi / 2 + 35 * pi / 180))
   \<and> delta_spec (branch_angle default_layout) 2 1 = 35 * pi / 180
   \<and> delta_spec (branch_angle default_layout) 2 0 = - (35 * pi / 180)
   \<and> [(1 :: int) \<mapsto> [2, 2 :: int], 2 \<mapsto> []] 1 = Some [2, 2]
   \<and> [2, 2 :: int] ! 1 \<in> positioned_nodes
        (place_children default_layout zero_draws [(1 :: int) \<mapsto> [2, 2 :: int], 2 \<mapsto> []]
           600 650 (- pi / 2) 100 1 (length [2, 2 :: int]) (enumerate 0 (take 1 [2, 2 :: int]))
           \<lparr> positioned_nodes = {1}, node_positions = [1 \<mapsto> (600, 650)], draws = 0 \<rparr>)
   \<and> node_positions
        (place_nodes_recursively default_layout zero_draws 1 [(1 :: int) \<mapsto> [2, 2 :: int], 2 \<mapsto> []]
           600 650 (- pi / 2) 100 1
           \<lparr> positioned_nodes = {1}, node_positions = [1 \<mapsto> (600, 650)], draws = 0 \<rparr>) 2
       = Some (600 + 100 * cos (- pi / 2 - 35 * pi / 180), 650 + 100 * sin (- pi / 2 - 35 * pi / 180))
   \<and> (10 :: real) < min_branch_length default_layout
   \<and> place_nodes_recursively default_layout zero_draws 1 [(1 :: int) \<mapsto> [2, 3 :: int], 2 \<mapsto> [], 3 \<mapsto> []]
           600 650 (- pi / 2) 10 1
           \<lparr> positioned_nodes = {1}, node_positions = [1 \<mapsto> (600, 650)], draws = 0 \<rparr>
       = \<lparr> positioned_nodes = {1}, node_positions = [1 \<mapsto> (600, 650)], draws = 0 \<rparr>"
proof -
  let ?ts = "[(1 :: int) \<mapsto> [2, 3 :: int], 2 \<mapsto> [], 3 \<mapsto> []]"
  let ?dup = "[(1 :: int) \<mapsto> [2, 2 :: int], 2 \<mapsto> []]"
  let ?init = "\<lparr> positioned_nodes = {1 :: int}, node_positions = [1 \<mapsto> (600 :: real, 650 :: real)], draws = 0 \<rparr>"
  have h1: "?ts 1 = Some [2, 3]" by simp
  have h2: "(1 :: nat) < length [2, 3 :: int]" by simp
  have h3: "[2, 3 :: int] ! 1 \<notin> positioned_nodes ?init" by simp
  have "reachable_from ?ts 2 = {2}"
    by (rule reachable_from_no_kids) (simp add: kids_of_def)
  then have h4': "(3 :: int) \<notin> reachable_from ?ts 2" by simp
  then have h4: "\<forall>j<1. [2, 3 :: int] ! 1 \<notin> reachable_from ?ts ([2, 3] ! j)" by simp
  have h5: "1 < max_depth default_layout" and h6: "min_branch_length default_layout \<le> 100"
    and h7: "(10 :: real) < min_branch_length default_layout"
    by (simp_all add: default_layout_def TreeLayoutAlgorithm_def)
  have ba: "branch_angle default_layout = 35 * pi / 180"
    by (simp add: default_layout_def TreeLayoutAlgorithm_def)
  have d1: "delta_spec (branch_angle default_layout) (length [2, 3 :: int]) 1 = 35 * pi / 180"
    and d0: "delta_spec (branch_angle default_layout) 2 0 = - (35 * pi / 180)"
    and d1': "delta_spec (branch_angle default_layout) 2 1 = 35 * pi / 180"
    by (simp_all add: delta_spec_def ba)
  note tri = C6_child_angles [where tree_structure = "?ts" and node_id = 1 and cs = "[2, 3]" and i = 1
      and dep = 1 and self = default_layout and len = 100 and rs = zero_draws and sx = 600 and sy = 650
      and ang = "- pi / 2" and s = "?init", OF h1 h2]
  from tri h3 h4 h5 h6
  have "node_positions
        (place_nodes_recursively default_layout zero_draws 1 ?ts 600 650 (- pi / 2) 100 1 ?init) ([2, 3] ! 1)
       = Some (600 + 100 * cos (- pi / 2 + delta_spec (branch_angle default_layout) (length [2, 3 :: int]) 1),
               650 + 100 * sin (- pi / 2 + delta_spec (branch_angle default_layout) (length [2, 3 :: int]) 1))"
    by blast
  then have a: "node_positions
        (place_nodes_recursively default_layout zero_draws 1 ?ts 600 650 (- pi / 2) 100 1 ?init) 3
       = Some (600 + 100 * cos (- pi / 2 + 35 * pi / 180), 650 + 100 * sin (- pi / 2 + 35 * pi / 180))"
    unfolding d1 by (simp del: place_nodes_recursively.simps place_children.simps)
  have g1: "?dup 1 = Some [2, 2]" by simp
  have g2: "(1 :: nat) < length [2, 2 :: int]" by simp
  let ?turn = "place_children default_layout zero_draws ?dup 600 650 (- pi / 2) 100 1 (length [2, 2 :: int])
      (enumerate 0 (take 1 [2, 2 :: int])) ?init"
  have g3: "[2, 2 :: int] ! 1 \<in> positioned_nodes ?turn"
    by (simp add: place_eval)
  have g4: "node_positions ?turn ([2, 2 :: int] ! 1)
      = Some (600 + 100 * cos (- pi / 2 - 35 * pi / 180), 650 + 100 * sin (- pi / 2 - 35 * pi / 180))"
    by (simp add: place_eval)
  note dup = C6_child_angles [where tree_structure = "?dup" and node_id = 1 and cs = "[2, 2]" and i = 1
      and dep = 1 and self = default_layout and len = 100 and rs = zero_draws and sx = 600 and sy = 650
      and ang = "- pi / 2" and s = "?init", OF g1 g2]
  from dup g3 h5 h6
  have "node_positions
        (place_nodes_recursively default_layout zero_draws 1 ?dup 600 650 (- pi / 2) 100 1 ?init) ([2, 2] ! 1)
       = node_positions ?turn ([2, 2 :: int] ! 1)"
    by blast
  then have b: "node_positions
        (place_nodes_recursively default_layout zero_draws 1 ?dup 600 650 (- pi / 2) 100 1 ?init) 2
       = Some (600 + 100 * cos (- pi / 2 - 35 * pi / 180), 650 + 100 * sin (- pi / 2 - 35 * pi / 180))"
    unfolding g4 by (simp del: place_nodes_recursively.simps place_children.simps)
  note cutoff = C6_child_angles [where tree_structure = "?ts" and node_id = 1 and cs = "[2, 3]" and i = 1
      and dep = 1 and self = default_layout and len = 10 and rs = zero_draws and sx = 600 and sy = 650
      and ang = "- pi / 2" and s = "?init", OF h1 h2]
  from cutoff h7
  have c: "place_nodes_recursively default_layout zero_draws 1 ?ts 600 650 (- pi / 2) 10 1 ?init = ?init"
    by blast
  from h1 h2 h3 h4' h5 h6 h7 d0 d1' a g1 g3 b c show ?thesis
    by (simp del: place_nodes_recursively.simps place_children.simps)
qed

text \<open>
  Claim C1, as stated: every node reachable from the root receives a position. It fails
  for a chain of ten nodes with the parameters of \<^verbatim>\<open>example_usage\<close>
  (\<^verbatim>\<open>min_branch_length\<close> = 30, base length 100): with every length factor 0.8 the
  recursion stops at node 7, whose branch length 100 * 0.8^6 is below 30, so nodes 8, 9
  and 10 get no position although they are reachable. (Whatever the factors in
  [0.8, 0.85] are, node 10 is never placed: 100 * 0.85^8 < 30.)
\<close>

theorem C1_cutoff_counterexample:
  "map_sum id dom (layout_tree default_layout sorted_list_of_set zero_draws chain_nodes chain_links 600 650 0)
     = Inr {1, 2, 3, 4, 5, 6, 7}
   \<and> 10 \<in> reachable_from (build_tree_structure 1 chain_nodes chain_links) 1"
  using chain_layout_dom chain_reach by simp

text \<open>
  Claim C1, amended. For an empty node dict \<^verbatim>\<open>layout_tree\<close> returns the empty mapping.
  Otherwise it returns a mapping \<open>P\<close> that holds the root at the origin and whose keys
  are all reachable from the root through the tree structure. A reachable node is left out
  only where the depth or length cut-off stops the recursion. In terms of the calls of
  \<^verbatim>\<open>place_nodes_recursively\<close> made by the layout, each with its node, length and depth:

  \<^item> the first call is on the root, with the base length, at depth 1; every other call
    is made from a call on a parent of its node that passed both cut-off tests, one
    level deeper, with the parent's length times a factor
    \<open>0.8 + (branch_factor - 0.8) * random()\<close>;
  \<^item> the keys of \<open>P\<close> are the nodes of the calls, and no node has two calls;
  \<^item> a call that passes the cut-off tests (depth below \<^verbatim>\<open>max_depth\<close> and length at
    least \<^verbatim>\<open>min_branch_length\<close>) leaves every child of its node with a position;
  \<^item> so every reachable node without a position is reachable from the node of a call
    that the cut-off stopped (depth at least \<^verbatim>\<open>max_depth\<close>, or length below
    \<^verbatim>\<open>min_branch_length\<close>);
  \<^item> in particular, when \<^verbatim>\<open>max_depth\<close> exceeds the number of nodes and
    \<^verbatim>\<open>min_branch_length\<close> is at most
    base_length * min(0.8, branch_factor)^(number of nodes - 1), with
    \<^verbatim>\<open>branch_factor\<close> not negative and \<^verbatim>\<open>random()\<close> in [0, 1], the keys are
    exactly the reachable nodes.
\<close>

theorem C1_layout_reachable:
  "(nodes = [] \<longrightarrow>
      layout_tree (TreeLayoutAlgorithm ba bf mbl md) set_order rs nodes links root_x root_y n = Inr Map.empty)
   \<and> (nodes \<noteq> [] \<longrightarrow>
      (\<exists>P root_node rest calls.
         find_root_nodes set_order nodes links = Inr (root_node # rest)
         \<and> layout_tree (TreeLayoutAlgorithm ba bf mbl md) set_order rs nodes links root_x root_y n = Inr P
         \<and> P root_node = Some (root_x, root_y)
         \<and> dom P \<subseteq> reachable_from (build_tree_structure root_node nodes links) root_node
         \<and> layout_calls (TreeLayoutAlgorithm ba bf mbl md) set_order rs nodes links root_x root_y n = calls
         \<and> (\<exists>tail. calls = (root_node, real_of_int (fst (select_spec (int (length nodes)))), 1) # tail)
         \<and> distinct (map fst calls)
         \<and> fst ` set calls = dom P
         \<and> (\<forall>x \<in> set calls.
               x = (root_node, real_of_int (fst (select_spec (int (length nodes)))), 1)
               \<or> made_from (TreeLayoutAlgorithm ba bf mbl md) rs
                    (build_tree_structure root_node nodes links) calls x)
         \<and> (\<forall>p l d. (p, l, d) \<in> set calls \<longrightarrow> d < md \<and> mbl \<le> l \<longrightarrow>
               set (kids_of (build_tree_structure root_node nodes links) p) \<subseteq> dom P)
         \<and> (\<forall>x \<in> reachable_from (build_tree_structure root_node nodes links) root_node - dom P.
               \<exists>p l d. (p, l, d) \<in> set calls \<and> (md \<le> d \<or> l < mbl)
                  \<and> x \<in> reachable_from (build_tree_structure root_node nodes links) p)
         \<and> (int (length nodes) < md \<and> 0 \<le> bf
              \<and> (\<forall>k. 0 \<le> unit_draws rs k \<and> unit_draws rs k \<le> 1)
              \<and> mbl \<le> real_of_int (fst (select_spec (int (length nodes))))
                         * (min (8 / 10) bf) ^ (length nodes - 1)
             \<longrightarrow> dom P = reachable_from (build_tree_structure root_node nodes links) root_node)))"
proof (intro conjI impI)
  assume "nodes = []"
  then show "layout_tree (TreeLayoutAlgorithm ba bf mbl md) set_order rs nodes links root_x root_y n = Inr Map.empty"
    by (simp add: layout_tree_def)
next
  assume ne: "nodes \<noteq> []"
  let ?self = "TreeLayoutAlgorithm ba bf mbl md"
  obtain root_node rest where fr: "find_root_nodes set_order nodes links = Inr (root_node # rest)"
    using find_root_nodes_nonempty [OF ne] by blast
  let ?ts = "build_tree_structure root_node nodes links"
  let ?B = "real_of_int (fst (select_spec (int (length nodes))))"
  obtain P where P: "layout_tree ?self set_order rs nodes links root_x root_y n = Inr P"
    using layout_tree_eq [OF ne fr] by blast
  define calls where "calls = layout_calls ?self set_order rs nodes links root_x root_y n"
  note pos = layout_positions [where nodes = nodes and links = links and root_node = root_node
        and ba = ba and bf = bf and mbl = mbl and md = md and rs = rs
        and root_x = root_x and root_y = root_y and n = n]
  note facts = layout_calls_facts [OF ne fr P calls_def refl]
  have Peq: "P = node_positions
      (place_nodes_recursively ?self rs root_node ?ts root_x root_y (- pi / 2) ?B 1
         \<lparr> positioned_nodes = {root_node}, node_positions = [root_node \<mapsto> (root_x, root_y)],
           draws = n \<rparr>)"
    using P unfolding layout_tree_eq [OF ne fr] by simp
  have a: "P root_node = Some (root_x, root_y)" unfolding Peq by (rule pos(1))
  have b: "dom P \<subseteq> reachable_from ?ts root_node" unfolding Peq by (rule pos(2))
  have c: "int (length nodes) < md \<and> 0 \<le> bf
              \<and> (\<forall>k. 0 \<le> unit_draws rs k \<and> unit_draws rs k \<le> 1)
              \<and> mbl \<le> ?B * (min (8 / 10) bf) ^ (length nodes - 1)
             \<longrightarrow> dom P = reachable_from ?ts root_node"
    unfolding Peq using pos(3) by blast
  show "\<exists>P root_node rest calls.
         find_root_nodes set_order nodes links = Inr (root_node # rest)
         \<and> layout_tree (TreeLayoutAlgorithm ba bf mbl md) set_order rs nodes links root_x root_y n = Inr P
         \<and> P root_node = Some (root_x, root_y)
         \<and> dom P \<subseteq> reachable_from (build_tree_structure root_node nodes links) root_node
         \<and> layout_calls (TreeLayoutAlgorithm ba bf mbl md) set_order rs nodes links root_x root_y n = calls
         \<and> (\<exists>tail. calls = (root_node, real_of_int (fst (select_spec (int (length nodes)))), 1) # tail)
         \<and> distinct (map fst calls)
         \<and> fst ` set calls = dom P
         \<and> (\<forall>x \<in> set calls.
               x = (root_node, real_of_int (fst (select_spec (int (length nodes)))), 1)
               \<or> made_from (TreeLayoutAlgorithm ba bf mbl md) rs
                    (build_tree_structure root_node nodes links) calls x)
         \<and> (\<forall>p l d. (p, l, d) \<in> set calls \<longrightarrow> d < md \<and> mbl \<le> l \<longrightarrow>
               set (kids_of (build_tree_structure root_node nodes links) p) \<subseteq> dom P)
         \<and> (\<forall>x \<in> reachable_from (build_tree_structure root_node nodes links) root_node - dom P.
               \<exists>p l d. (p, l, d) \<in> set calls \<and> (md \<le> d \<or> l < mbl)
                  \<and> x \<in> reachable_from (build_tree_structure root_node nodes links) p)
         \<and> (int (length nodes) < md \<and> 0 \<le> bf
              \<and> (\<forall>k. 0 \<le> unit_draws rs k \<and> unit_draws rs k \<le> 1)
              \<and> mbl \<le> real_of_int (fst (select_spec (int (length nodes))))
                         * (min (8 / 10) bf) ^ (length nodes - 1)
             \<longrightarrow> dom P = reachable_from (build_tree_structure root_node nodes links) root_node)"
    apply (rule exI [of _ P], rule exI [of _ root_node], rule exI [of _ rest], rule exI [of _ calls])
    apply (intro conjI)
               apply (rule fr)
              apply (rule P)
             apply (rule a)
            apply (rule b)
           apply (simp only: calls_def)
          apply (rule facts(1))
         apply (rule facts(2))
        apply (rule facts(3))
       apply (rule facts(4))
      apply (rule facts(5))
     apply (rule facts(6))
    apply (rule c)
    done
qed

text \<open>
  Claim C1, amended, with the parameters of \<^verbatim>\<open>example_usage\<close>: for a root with two
  children the keys are exactly the nodes reachable from the root 1; for the chain of ten
  nodes, node 10 is reachable and has no position, and it is reachable from the node of a
  call whose length is below \<^verbatim>\<open>min_branch_length\<close> = 30.
\<close>

theorem C1_layout_reachable_witness:
  "tri_nodes \<noteq> []
   \<and> int (length tri_nodes) < 10000 \<and> (0 :: real) \<le> 85 / 100
   \<and> (\<forall>k. 0 \<le> unit_draws zero_draws k \<and> unit_draws zero_draws k \<le> 1)
   \<and> (30 :: real) \<le> real_of_int (fst (select_spec (int (length tri_nodes))))
                        * (min (8 / 10) (85 / 100)) ^ (length tri_nodes - 1)
   \<and> find_root_nodes sorted_list_of_set tri_nodes tri_links = Inr [1]
   \<and> map_sum id dom (layout_tree default_layout sorted_list_of_set zero_draws tri_nodes tri_links 600 650 0)
       = Inr (reachable_from (build_tree_structure 1 tri_nodes tri_links) 1)
   \<and> map_sum id (\<lambda>P. P 1) (layout_tree default_layout sorted_list_of_set zero_draws tri_nodes tri_links 600 650 0)
       = Inr (Some (600, 650))
   \<and> chain_nodes \<noteq> []
   \<and> 10 \<in> reachable_from (build_tree_structure 1 chain_nodes chain_links) 1
   \<and> map_sum id (\<lambda>P. P 10) (layout_tree default_layout sorted_list_of_set zero_draws chain_nodes chain_links 600 650 0)
       = Inr None
   \<and> (\<exists>p l d. (p, l, d) \<in> set (layout_calls default_layout sorted_list_of_set zero_draws
                                   chain_nodes chain_links 600 650 0)
         \<and> (10000 \<le> d \<or> l < 30)
         \<and> 10 \<in> reachable_from (build_tree_structure 1 chain_nodes chain_links) p)"
proof -
  have ne: "tri_nodes \<noteq> []" by (simp add: tri_nodes_def)
  have h: "int (length tri_nodes) < 10000" "(0 :: real) \<le> 85 / 100"
    "\<forall>k. 0 \<le> unit_draws zero_draws k \<and> unit_draws zero_draws k \<le> 1"
    "(30 :: real) \<le> real_of_int (fst (select_spec (int (length tri_nodes))))
                        * (min (8 / 10) (85 / 100)) ^ (length tri_nodes - 1)"
    by (simp_all add: tri_nodes_def zero_draws_def select_spec_def power2_eq_square)
  from C1_layout_reachable [of tri_nodes "35 * pi / 180" "85 / 100" 30 10000 sorted_list_of_set
      zero_draws tri_links 600 650 0] ne
  obtain P root_node rest where
    "find_root_nodes sorted_list_of_set tri_nodes tri_links = Inr (root_node # rest)"
    and P: "layout_tree default_layout sorted_list_of_set zero_draws tri_nodes tri_links 600 650 0 = Inr P"
    and root: "P root_node = Some (600, 650)"
    and all: "int (length tri_nodes) < 10000 \<and> (0 :: real) \<le> 85 / 100
              \<and> (\<forall>k. 0 \<le> unit_draws zero_draws k \<and> unit_draws zero_draws k \<le> 1)
              \<and> (30 :: real) \<le> real_of_int (fst (select_spec (int (length tri_nodes))))
                         * (min (8 / 10) (85 / 100)) ^ (length tri_nodes - 1)
             \<longrightarrow> dom P = reachable_from (build_tree_structure root_node tri_nodes tri_links) root_node"
    unfolding default_layout_def by blast
  then have r: "root_node = 1" by (simp add: tri_root)
  from all h have tri: "dom P = reachable_from (build_tree_structure 1 tri_nodes tri_links) 1"
    unfolding r by blast
  have cne: "chain_nodes \<noteq> []" by (simp add: chain_nodes_def)
  from C1_layout_reachable [of chain_nodes "35 * pi / 180" "85 / 100" 30 10000 sorted_list_of_set
      zero_draws chain_links 600 650 0] cne
  obtain Q root_node' rest' where
    fr': "find_root_nodes sorted_list_of_set chain_nodes chain_links = Inr (root_node' # rest')"
    and Q: "layout_tree default_layout sorted_list_of_set zero_draws chain_nodes chain_links 600 650 0 = Inr Q"
    and cut: "\<forall>x \<in> reachable_from (build_tree_structure root_node' chain_nodes chain_links) root_node' - dom Q.
               \<exists>p l d. (p, l, d) \<in> set (layout_calls default_layout sorted_list_of_set zero_draws
                                   chain_nodes chain_links 600 650 0)
                  \<and> (10000 \<le> d \<or> l < 30)
                  \<and> x \<in> reachable_from (build_tree_structure root_node' chain_nodes chain_links) p"
    unfolding default_layout_def by blast
  from fr' have r': "root_node' = 1" by (simp add: chain_root)
  from chain_layout_dom Q have domQ: "dom Q = {1, 2, 3, 4, 5, 6, 7}" by simp
  have notin: "10 \<notin> dom Q" unfolding domQ by simp
  then have Q10: "Q 10 = None" by (simp only: domIff not_not)
  from chain_reach notin
  have "10 \<in> reachable_from (build_tree_structure 1 chain_nodes chain_links) 1 - dom Q"
    by simp
  with cut have ex: "\<exists>p l d. (p, l, d) \<in> set (layout_calls default_layout sorted_list_of_set zero_draws
                                   chain_nodes chain_links 600 650 0)
                  \<and> (10000 \<le> d \<or> l < 30)
                  \<and> 10 \<in> reachable_from (build_tree_structure 1 chain_nodes chain_links) p"
    unfolding r' by blast
  from P root r ne h tri_root tri cne chain_reach Q Q10 ex show ?thesis by simp
qed

end
